theory Spec2Isabelle
  imports Main
begin

section \<open>The C library functions the game calls\<close>

text \<open>
  A C \<open>char\<close> is a byte, modelled by \<^typ>\<open>char\<close>. A buffer is the list of its cells; the
  C string it holds is the cells before the first NUL. The program never calls
  \<open>setlocale\<close>, so the character classes are those of the "C" locale: only the ASCII
  letters are alphabetic, and bytes from 128 on are left alone by \<open>tolower\<close>.
\<close>

definition NUL :: char where
  "NUL = CHR 0x00"

definition newline :: char where
  "newline = CHR 0x0A"

definition isupper_c :: "char \<Rightarrow> bool" where
  "isupper_c c = (65 \<le> (of_char c :: nat) \<and> (of_char c :: nat) \<le> 90)"

definition islower_c :: "char \<Rightarrow> bool" where
  "islower_c c = (97 \<le> (of_char c :: nat) \<and> (of_char c :: nat) \<le> 122)"

definition isalpha_c :: "char \<Rightarrow> bool" where
  "isalpha_c c = (isupper_c c \<or> islower_c c)"

definition isdigit_c :: "char \<Rightarrow> bool" where
  "isdigit_c c = (48 \<le> (of_char c :: nat) \<and> (of_char c :: nat) \<le> 57)"

definition isspace_c :: "char \<Rightarrow> bool" where
  "isspace_c c = ((of_char c :: nat) = 32 \<or> (9 \<le> (of_char c :: nat) \<and> (of_char c :: nat) \<le> 13))"

definition tolower_c :: "char \<Rightarrow> char" where
  "tolower_c c = (if isupper_c c then char_of ((of_char c :: nat) + 32) else c)"

definition c_str :: "string \<Rightarrow> string" where
  "c_str buf = takeWhile (\<lambda>c. c \<noteq> NUL) buf"

definition strlen :: "string \<Rightarrow> nat" where
  "strlen buf = length (c_str buf)"

text \<open>\<open>strchr_c buf c\<close> is \<open>strchr(buf, c) != NULL\<close>, for a character \<open>c\<close> other than NUL.\<close>

definition strchr_c :: "string \<Rightarrow> char \<Rightarrow> bool" where
  "strchr_c buf c = (c \<in> set (c_str buf))"

text \<open>
  Standard input is the list of the bytes still to be read; it is at end of file when the
  list is empty, and stays there. \<open>fgets(buf, n, stdin)\<close> reads at most \<open>n - 1\<close> bytes and
  stops after a newline; it returns NULL (here \<open>None\<close>) when no byte could be read.
\<close>

fun fgets_read :: "nat \<Rightarrow> string \<Rightarrow> string \<times> string" where
  "fgets_read 0 inp = ([], inp)"
| "fgets_read (Suc k) [] = ([], [])"
| "fgets_read (Suc k) (c # inp) =
     (if c = newline then ([c], inp)
      else (case fgets_read k inp of (buf, rest) \<Rightarrow> (c # buf, rest)))"

definition fgets :: "nat \<Rightarrow> string \<Rightarrow> (string \<times> string) option" where
  "fgets n inp = (if inp = [] then None else Some (fgets_read (n - 1) inp))"

text \<open>\<open>while ((c = getchar()) != '\n' && c != EOF);\<close>\<close>

definition consumeRemainingInput :: "string \<Rightarrow> string" where
  "consumeRemainingInput inp = drop 1 (dropWhile (\<lambda>c. c \<noteq> newline) inp)"

definition pauseForUser :: "string \<Rightarrow> string" where
  "pauseForUser inp = consumeRemainingInput inp"

text \<open>
  \<open>sscanf(buf, "%d", &x)\<close>: white space is skipped, then an optional sign and a non-empty
  run of decimal digits are converted; \<open>None\<close> is the matching failure, which leaves
  \<open>x\<close> as it was.
\<close>

definition digits_value :: "string \<Rightarrow> int" where
  "digits_value ds = foldl (\<lambda>acc c. acc * 10 + (int (of_char c) - 48)) 0 ds"

definition sscanf_d :: "string \<Rightarrow> int option" where
  "sscanf_d buf =
     (let s = dropWhile isspace_c (c_str buf);
          neg = (s \<noteq> [] \<and> hd s = CHR ''-'');
          t = (if s \<noteq> [] \<and> (hd s = CHR ''-'' \<or> hd s = CHR ''+'') then tl s else s);
          ds = takeWhile isdigit_c t
      in if ds = [] then None
         else Some (if neg then - digits_value ds else digits_value ds))"

section \<open>The game (second program of hangman.c)\<close>

definition INPUT_BUFFER_SIZE :: nat where
  "INPUT_BUFFER_SIZE = 10"

definition ALPHABET_SIZE :: nat where
  "ALPHABET_SIZE = 26"

definition EASY_GUESSES :: int where
  "EASY_GUESSES = 8"

definition MEDIUM_GUESSES :: int where
  "MEDIUM_GUESSES = 6"

definition HARD_GUESSES :: int where
  "HARD_GUESSES = 4"

text \<open>
  The variables of one round. \<open>secretWord\<close> is given as the string before its terminator,
  so \<open>wordLength\<close> is its length. \<open>displayWord\<close> holds the \<open>wordLength\<close> cells before the
  terminator written once at initialisation; \<open>guessedLetters\<close> is the whole buffer of
  \<open>ALPHABET_SIZE + 1\<close> cells. The messages are the lines of output that tell the runs
  apart; the drawing and the echo of the state are left out.
\<close>

record round_state =
  incorrectGuesses :: int
  displayWord :: string
  guessedLetters :: string
  numGuessedLetters :: nat
  gameOver :: int
  playerWon :: int

datatype guess_error = InvalidFormatError | InvalidLetterError | DuplicateGuessError

datatype message =
    PromptGuess
  | EofDetected
  | Rejected guess_error
  | GuessCorrect char
  | GuessIncorrect char
  | Congratulations string
  | SorryOutOfGuesses string
  | PromptDifficulty
  | DifficultySelected int
  | InvalidChoiceDefault
  | PromptPlayAgain

definition initRound :: "string \<Rightarrow> round_state" where
  "initRound secretWord =
     \<lparr> incorrectGuesses = 0,
       displayWord = replicate (length secretWord) (CHR ''_''),
       guessedLetters = replicate (ALPHABET_SIZE + 1) NUL,
       numGuessedLetters = 0,
       gameOver = 0,
       playerWon = 0 \<rparr>"

text \<open>Lines 800-814: the format and letter checks on the line just read.\<close>

definition normalizeGuess :: "string \<Rightarrow> guess_error + char" where
  "normalizeGuess inputBuffer =
     (if strlen inputBuffer \<noteq> 2 then Inl InvalidFormatError
      else let currentGuess = tolower_c (inputBuffer ! 0)
           in if \<not> isalpha_c currentGuess then Inl InvalidLetterError
              else Inr currentGuess)"

text \<open>A write into a buffer; \<open>None\<close> is a write outside the buffer.\<close>

definition store :: "string \<Rightarrow> nat \<Rightarrow> char \<Rightarrow> string option" where
  "store buf i c = (if i < length buf then Some (buf[i := c]) else None)"

text \<open>Lines 832-837: the scan of the secret word, returning the pattern and \<open>correctGuess\<close>.\<close>

definition reveal :: "string \<Rightarrow> char \<Rightarrow> string \<Rightarrow> string \<times> int" where
  "reveal secretWord currentGuess display =
     foldl (\<lambda>(d, correctGuess) i.
              if secretWord ! i = currentGuess then (d[i := currentGuess], 1)
              else (d, correctGuess))
           (display, 0) [0 ..< length secretWord]"

text \<open>Lines 821-848: a new valid letter is recorded and scored.\<close>

definition applyGuess :: "string \<Rightarrow> char \<Rightarrow> round_state \<Rightarrow> (round_state \<times> message) option" where
  "applyGuess secretWord currentGuess s =
     (case store (guessedLetters s) (numGuessedLetters s) currentGuess of
        None \<Rightarrow> None
      | Some g1 \<Rightarrow>
          (case store g1 (numGuessedLetters s + 1) NUL of
             None \<Rightarrow> None
           | Some g2 \<Rightarrow>
               (case reveal secretWord currentGuess (displayWord s) of
                  (d, correctGuess) \<Rightarrow>
                    Some (s\<lparr> guessedLetters := g2,
                             numGuessedLetters := numGuessedLetters s + 1,
                             displayWord := d,
                             incorrectGuesses :=
                               (if correctGuess = 0 then incorrectGuesses s + 1
                                else incorrectGuesses s) \<rparr>,
                          if correctGuess = 0 then GuessIncorrect currentGuess
                          else GuessCorrect currentGuess))))"

text \<open>Lines 850-859: the loss check comes first, then the win check.\<close>

definition checkGameOver :: "int \<Rightarrow> round_state \<Rightarrow> round_state" where
  "checkGameOver maxIncorrectGuesses s =
     (if incorrectGuesses s = maxIncorrectGuesses then s\<lparr> gameOver := 1, playerWon := 0 \<rparr>
      else if \<not> strchr_c (displayWord s @ [NUL]) (CHR ''_'') then s\<lparr> gameOver := 1, playerWon := 1 \<rparr>
      else s)"

text \<open>
  Lines 765-859: one iteration of \<open>while (!gameOver)\<close>, on the input still to be read, the
  round's variables and the messages printed so far. \<open>None\<close> is a write outside
  \<open>guessedLetters\<close>.
\<close>

definition gameTurn ::
  "string \<Rightarrow> int \<Rightarrow> string \<times> round_state \<times> message list \<Rightarrow> (string \<times> round_state \<times> message list) option" where
  "gameTurn secretWord maxIncorrectGuesses cfg =
     (case cfg of (inp, s, out) \<Rightarrow>
        (case fgets INPUT_BUFFER_SIZE inp of
           None \<Rightarrow> Some (inp, s\<lparr> gameOver := 1 \<rparr>, out @ [PromptGuess, EofDetected])
         | Some (inputBuffer, rest) \<Rightarrow>
             (case normalizeGuess inputBuffer of
                Inl e \<Rightarrow> Some (pauseForUser rest, s, out @ [PromptGuess, Rejected e])
              | Inr currentGuess \<Rightarrow>
                  if strchr_c (guessedLetters s) currentGuess
                  then Some (pauseForUser rest, s, out @ [PromptGuess, Rejected DuplicateGuessError])
                  else (case applyGuess secretWord currentGuess s of
                          None \<Rightarrow> None
                        | Some (s', m) \<Rightarrow>
                            Some (rest, checkGameOver maxIncorrectGuesses s',
                                  out @ [PromptGuess, m])))))"

lemma fgets_read_length:
  "fgets_read k inp = (buf, rest) \<Longrightarrow> length buf + length rest = length inp"
  by (induction k inp arbitrary: buf rest rule: fgets_read.induct)
     (auto split: if_splits prod.splits)

lemma fgets_read_nonempty:
  "fgets_read (Suc k) (c # inp) = (buf, rest) \<Longrightarrow> buf \<noteq> []"
  by (auto split: if_splits prod.splits)

lemma fgets_shorter:
  assumes "fgets n inp = Some (buf, rest)" and "2 \<le> n"
  shows "length rest < length inp"
proof -
  from assms obtain c inp' k where inp: "inp = c # inp'" and n: "n - 1 = Suc k"
    and r: "fgets_read (Suc k) (c # inp') = (buf, rest)"
    by (cases inp; cases "n - 1") (auto simp: fgets_def split: if_splits)
  from fgets_read_nonempty [OF r] fgets_read_length [OF r] inp show ?thesis
    by (cases buf) auto
qed

lemma consumeRemainingInput_length:
  "length (consumeRemainingInput inp) \<le> length inp"
proof -
  have "length (dropWhile (\<lambda>c. c \<noteq> newline) inp) \<le> length inp"
    by (rule length_dropWhile_le)
  then show ?thesis by (simp add: consumeRemainingInput_def)
qed

lemma pauseForUser_length: "length (pauseForUser inp) \<le> length inp"
  by (simp add: pauseForUser_def consumeRemainingInput_length)

lemma gameTurn_progress:
  assumes "gameTurn secretWord maxIncorrectGuesses (inp, s, out) = Some (inp', s', out')"
  shows "gameOver s' \<noteq> 0 \<and> gameOver s' = 1 \<and> inp' = inp \<and> inp = [] \<or> length inp' < length inp"
proof (cases "fgets INPUT_BUFFER_SIZE inp")
  case None
  with assms show ?thesis by (auto simp: gameTurn_def fgets_def split: if_splits)
next
  case (Some br)
  obtain buf rest where br: "br = (buf, rest)" by (cases br)
  from Some br have "length rest < length inp"
    by (auto intro: fgets_shorter simp: INPUT_BUFFER_SIZE_def)
  moreover have "length (pauseForUser rest) \<le> length rest" by (rule pauseForUser_length)
  ultimately show ?thesis using assms Some br
    by (auto simp: gameTurn_def split: sum.splits if_splits option.splits)
qed

text \<open>Lines 764-861: \<open>while (!gameOver) { ... }\<close>.\<close>

function gameLoop ::
  "string \<Rightarrow> int \<Rightarrow> string \<times> round_state \<times> message list \<Rightarrow> (string \<times> round_state \<times> message list) option" where
  "gameLoop secretWord maxIncorrectGuesses (inp, s, out) =
     (if gameOver s \<noteq> 0 then Some (inp, s, out)
      else (case gameTurn secretWord maxIncorrectGuesses (inp, s, out) of
              None \<Rightarrow> None
            | Some cfg \<Rightarrow> gameLoop secretWord maxIncorrectGuesses cfg))"
  by pat_completeness auto
termination
proof (relation "measure (\<lambda>(w, m, inp, s, out). if gameOver s = 0 then Suc (length inp) else 0)")
  show "wf (measure (\<lambda>(w, m, inp, s, out). if gameOver s = 0 then Suc (length inp) else (0::nat)))"
    by simp
next
  fix secretWord :: string and maxIncorrectGuesses :: int and inp :: string
    and s :: round_state and out :: "message list" and cfg
  assume go: "\<not> gameOver s \<noteq> 0"
    and t: "gameTurn secretWord maxIncorrectGuesses (inp, s, out) = Some cfg"
  obtain inp' s' out' where cfg: "cfg = (inp', s', out')" by (cases cfg)
  from gameTurn_progress [OF t [unfolded cfg]] go cfg
  show "((secretWord, maxIncorrectGuesses, cfg), (secretWord, maxIncorrectGuesses, inp, s, out))
          \<in> measure (\<lambda>(w, m, inp, s, out). if gameOver s = 0 then Suc (length inp) else 0)"
    by auto
qed

declare gameLoop.simps [simp del]

text \<open>Lines 742-871: one round, from the choice of the word to the final message.\<close>

definition playRound ::
  "string \<Rightarrow> int \<Rightarrow> string \<Rightarrow> message list \<Rightarrow> (string \<times> round_state \<times> message list) option" where
  "playRound secretWord maxIncorrectGuesses inp out =
     (case gameLoop secretWord maxIncorrectGuesses (inp, initRound secretWord, out) of
        None \<Rightarrow> None
      | Some (inp', s, out') \<Rightarrow>
          Some (inp', s,
                out' @ [if playerWon s \<noteq> 0 then Congratulations secretWord
                        else SorryOutOfGuesses secretWord]))"

text \<open>Lines 716-739: \<open>difficultyChoice\<close> starts at -1 and the switch maps it to the budget.\<close>

definition selectDifficulty :: "string \<Rightarrow> int \<times> message" where
  "selectDifficulty difficultyBuffer =
     (let difficultyChoice = (case sscanf_d difficultyBuffer of Some n \<Rightarrow> n | None \<Rightarrow> - 1)
      in if difficultyChoice = 1 then (EASY_GUESSES, DifficultySelected EASY_GUESSES)
         else if difficultyChoice = 2 then (MEDIUM_GUESSES, DifficultySelected MEDIUM_GUESSES)
         else if difficultyChoice = 3 then (HARD_GUESSES, DifficultySelected HARD_GUESSES)
         else (MEDIUM_GUESSES, InvalidChoiceDefault))"

text \<open>
  Lines 873-888: the answer to "Play Again?", giving the new value of \<open>playAgain\<close>. The
  notice printed at end of input (line 877) is not entered in the log.
\<close>

definition readPlayAgain :: "string \<Rightarrow> char \<times> string" where
  "readPlayAgain inp =
     (case fgets INPUT_BUFFER_SIZE inp of
        None \<Rightarrow> (CHR ''n'', inp)
      | Some (responseBuffer, rest) \<Rightarrow>
          (if strlen responseBuffer > 0 then tolower_c (responseBuffer ! 0) else CHR ''n'', rest))"

text \<open>
  Lines 697-888: the body of the \<open>do ... while (playAgain == 'y')\<close> loop. \<open>r\<close> is the value
  \<open>rand()\<close> returns in this iteration; the result is the new \<open>playAgain\<close>, the input left
  and the messages.
\<close>

definition sessionBody ::
  "string list \<Rightarrow> nat \<Rightarrow> string \<Rightarrow> message list \<Rightarrow> (char \<times> string \<times> message list) option" where
  "sessionBody wordList r inp out =
     (case fgets INPUT_BUFFER_SIZE inp of
        None \<Rightarrow> Some (CHR ''n'', inp, out @ [PromptDifficulty, EofDetected])
      | Some (difficultyBuffer, rest) \<Rightarrow>
          (case selectDifficulty difficultyBuffer of
             (maxIncorrectGuesses, m) \<Rightarrow>
               (case playRound (wordList ! (r mod length wordList)) maxIncorrectGuesses
                       (pauseForUser rest) (out @ [PromptDifficulty, m]) of
                  None \<Rightarrow> None
                | Some (inp', s, out') \<Rightarrow>
                    (case readPlayAgain inp' of
                       (playAgain, inp'') \<Rightarrow> Some (playAgain, inp'', out' @ [PromptPlayAgain])))))"


lemma gameLoop_input_length:
  "gameLoop secretWord maxIncorrectGuesses (inp, s, out) = Some (inp', s', out')
   \<Longrightarrow> length inp' \<le> length inp"
proof (induction secretWord maxIncorrectGuesses "(inp, s, out)" arbitrary: inp s out
       rule: gameLoop.induct)
  case (1 secretWord maxIncorrectGuesses inp s out)
  show ?case
  proof (cases "gameOver s \<noteq> 0")
    case True
    with "1.prems" show ?thesis by (simp add: gameLoop.simps)
  next
    case False
    with "1.prems" obtain inp1 s1 out1
      where t: "gameTurn secretWord maxIncorrectGuesses (inp, s, out) = Some (inp1, s1, out1)"
        and l: "gameLoop secretWord maxIncorrectGuesses (inp1, s1, out1) = Some (inp', s', out')"
      by (auto simp: gameLoop.simps split: option.splits)
    from "1.hyps" [OF False t l] have "length inp' \<le> length inp1" .
    moreover from gameTurn_progress [OF t] have "length inp1 \<le> length inp" by auto
    ultimately show ?thesis by simp
  qed
qed

lemma sessionBody_progress:
  assumes "sessionBody wordList r inp out = Some (playAgain, inp', out')"
    and "playAgain = CHR ''y''"
  shows "length inp' < length inp"
proof (cases "fgets INPUT_BUFFER_SIZE inp")
  case None
  with assms show ?thesis by (simp add: sessionBody_def)
next
  case (Some br)
  obtain buf rest where br: "br = (buf, rest)" by (cases br)
  from Some br have 1: "length rest < length inp"
    by (auto intro: fgets_shorter simp: INPUT_BUFFER_SIZE_def)
  have 2: "length (pauseForUser rest) \<le> length rest" by (rule pauseForUser_length)
  obtain m msg where sd: "selectDifficulty buf = (m, msg)" by (cases "selectDifficulty buf")
  from assms Some br sd obtain inp2 s2 out2
    where g: "gameLoop (wordList ! (r mod length wordList)) m
                (pauseForUser rest, initRound (wordList ! (r mod length wordList)),
                 out @ [PromptDifficulty, msg]) = Some (inp2, s2, out2)"
      and pa: "readPlayAgain inp2 = (playAgain, inp')"
    by (auto simp: sessionBody_def playRound_def split: option.splits prod.splits)
  from gameLoop_input_length [OF g] have 3: "length inp2 \<le> length (pauseForUser rest)" .
  have 4: "length inp' \<le> length inp2"
  proof (cases "fgets INPUT_BUFFER_SIZE inp2")
    case None
    with pa show ?thesis by (simp add: readPlayAgain_def)
  next
    case (Some br2)
    then obtain b2 r2 where "fgets INPUT_BUFFER_SIZE inp2 = Some (b2, r2)" by (cases br2) auto
    with pa fgets_shorter [OF this] show ?thesis
      by (auto simp: readPlayAgain_def INPUT_BUFFER_SIZE_def)
  qed
  from 1 2 3 4 show ?thesis by simp
qed

text \<open>
  Lines 694-889: the \<open>do ... while (playAgain == 'y')\<close> loop. \<open>rnd k\<close> is what the
  \<open>k\<close>-th call of \<open>rand()\<close> returns. \<open>wordList\<close> is not empty: \<open>main\<close> returns 1 before the
  loop when \<open>loadedWordCount <= 0\<close>.
\<close>

function session ::
  "string list \<Rightarrow> (nat \<Rightarrow> nat) \<Rightarrow> nat \<Rightarrow> string \<Rightarrow> message list \<Rightarrow> (string \<times> message list) option" where
  "session wordList rnd k inp out =
     (case sessionBody wordList (rnd k) inp out of
        None \<Rightarrow> None
      | Some (playAgain, inp', out') \<Rightarrow>
          if playAgain = CHR ''y'' then session wordList rnd (Suc k) inp' out'
          else Some (inp', out'))"
  by pat_completeness auto
termination
proof (relation "measure (\<lambda>(wordList, rnd, k, inp, out). length inp)")
  show "wf (measure (\<lambda>(wordList :: string list, rnd :: nat \<Rightarrow> nat, k :: nat, inp :: string, out :: message list). length inp))"
    by simp
next
  fix wordList :: "string list" and rnd :: "nat \<Rightarrow> nat" and k :: nat and inp :: string
    and out :: "message list" and x2 playAgain y inp' out'
  assume "sessionBody wordList (rnd k) inp out = Some x2" and "(playAgain, y) = x2"
    and "(inp', out') = y" and "playAgain = CHR ''y''"
  then have "length inp' < length inp"
    using sessionBody_progress [of wordList "rnd k" inp out playAgain inp' out'] by simp
  then show "((wordList, rnd, Suc k, inp', out'), (wordList, rnd, k, inp, out))
               \<in> measure (\<lambda>(wordList, rnd, k, inp, out). length inp)"
    by simp
qed


declare session.simps [simp del]

section \<open>The draft game (first program of hangman.c)\<close>

definition MAX_INCORRECT_GUESSES :: int where
  "MAX_INCORRECT_GUESSES = 6"

text \<open>
  Lines 186-195: the draft's \<open>pauseForUser\<close> discards the rest of the line and then one
  more line. It reads into a \<open>char\<close> before comparing with \<open>EOF\<close>; with a signed \<open>char\<close>
  (the platforms where the loops end at end of file) the byte 255 compares equal to
  \<open>EOF\<close> and stops a loop as a newline does.
\<close>

definition draft_discardLine :: "string \<Rightarrow> string" where
  "draft_discardLine inp = drop 1 (dropWhile (\<lambda>c. c \<noteq> newline \<and> c \<noteq> CHR 0xFF) inp)"

definition draft_pauseForUser :: "string \<Rightarrow> string" where
  "draft_pauseForUser inp = draft_discardLine (draft_discardLine inp)"

text \<open>
  Lines 248-364: one iteration of the draft's loop. The checks of the line and the
  scoring of a new letter (lines 297-352) are those of the second program;
  \<open>guessesRemaining\<close> is computed at the top of the iteration, before the guess.
\<close>

definition draft_gameTurn ::
  "string \<Rightarrow> string \<times> round_state \<times> message list \<Rightarrow> (string \<times> round_state \<times> message list) option" where
  "draft_gameTurn secretWord cfg =
     (case cfg of (inp, s, out) \<Rightarrow>
        (let guessesRemaining = MAX_INCORRECT_GUESSES - incorrectGuesses s in
         case fgets INPUT_BUFFER_SIZE inp of
           None \<Rightarrow> Some (inp, s\<lparr> gameOver := 1 \<rparr>, out @ [PromptGuess, EofDetected])
         | Some (inputBuffer, rest) \<Rightarrow>
             (case normalizeGuess inputBuffer of
                Inl e \<Rightarrow> Some (draft_pauseForUser rest, s, out @ [PromptGuess, Rejected e])
              | Inr currentGuess \<Rightarrow>
                  if isalpha_c currentGuess \<and> strchr_c (guessedLetters s) currentGuess
                  then Some (draft_pauseForUser rest, s,
                             out @ [PromptGuess, Rejected DuplicateGuessError])
                  else (case (if isalpha_c currentGuess
                              then applyGuess secretWord currentGuess s
                              else Some (s, PromptGuess)) of
                          None \<Rightarrow> None
                        | Some (s', m) \<Rightarrow>
                            if guessesRemaining \<le> 0 \<and> gameOver s' = 0
                            then Some (draft_pauseForUser rest, s'\<lparr> gameOver := 1 \<rparr>,
                                       out @ [PromptGuess, m])
                            else Some (rest, s', out @ [PromptGuess, m])))))"

lemma draft_pauseForUser_length: "length (draft_pauseForUser inp) \<le> length inp"
proof -
  have d: "length (draft_discardLine x) \<le> length x" for x
  proof -
    have "length (dropWhile (\<lambda>c. c \<noteq> newline \<and> c \<noteq> CHR 0xFF) x) \<le> length x"
      by (rule length_dropWhile_le)
    then show ?thesis by (simp add: draft_discardLine_def)
  qed
  from d [of "draft_discardLine inp"] d [of inp] show ?thesis
    by (simp add: draft_pauseForUser_def)
qed

lemma draft_gameTurn_progress:
  assumes "draft_gameTurn secretWord (inp, s, out) = Some (inp', s', out')"
  shows "gameOver s' = 1 \<and> inp' = inp \<or> length inp' < length inp"
proof (cases "fgets INPUT_BUFFER_SIZE inp")
  case None
  with assms show ?thesis by (auto simp: draft_gameTurn_def)
next
  case (Some br)
  obtain buf rest where br: "br = (buf, rest)" by (cases br)
  from Some br have "length rest < length inp"
    by (auto intro: fgets_shorter simp: INPUT_BUFFER_SIZE_def)
  moreover have "length (draft_pauseForUser rest) \<le> length rest"
    by (rule draft_pauseForUser_length)
  ultimately show ?thesis using assms Some br
    by (auto simp: draft_gameTurn_def Let_def split: sum.splits if_splits option.splits)
qed

function draft_gameLoop ::
  "string \<Rightarrow> string \<times> round_state \<times> message list \<Rightarrow> (string \<times> round_state \<times> message list) option" where
  "draft_gameLoop secretWord (inp, s, out) =
     (if gameOver s \<noteq> 0 then Some (inp, s, out)
      else (case draft_gameTurn secretWord (inp, s, out) of
              None \<Rightarrow> None
            | Some cfg \<Rightarrow> draft_gameLoop secretWord cfg))"
  by pat_completeness auto
termination
proof (relation "measure (\<lambda>(w, inp, s, out). if gameOver s = 0 then Suc (length inp) else 0)")
  show "wf (measure (\<lambda>(w, inp, s, out). if gameOver s = 0 then Suc (length inp) else (0::nat)))"
    by simp
next
  fix secretWord :: string and inp :: string
    and s :: round_state and out :: "message list" and cfg
  assume go: "\<not> gameOver s \<noteq> 0"
    and t: "draft_gameTurn secretWord (inp, s, out) = Some cfg"
  obtain inp' s' out' where cfg: "cfg = (inp', s', out')" by (cases cfg)
  from draft_gameTurn_progress [OF t [unfolded cfg]] go cfg
  show "((secretWord, cfg), (secretWord, inp, s, out))
          \<in> measure (\<lambda>(w, inp, s, out). if gameOver s = 0 then Suc (length inp) else 0)"
    by auto
qed

declare draft_gameLoop.simps [simp del]

text \<open>Lines 230-373: the draft's game, from the initialisation to the final message.\<close>

definition draft_game ::
  "string \<Rightarrow> string \<Rightarrow> (string \<times> round_state \<times> message list) option" where
  "draft_game secretWord inp =
     (case draft_gameLoop secretWord (inp, initRound secretWord, []) of
        None \<Rightarrow> None
      | Some (inp', s, out) \<Rightarrow>
          Some (inp', s,
                out @ [if playerWon s \<noteq> 0 then Congratulations secretWord
                       else SorryOutOfGuesses secretWord]))"

section \<open>States of a round: the notions used in the statements\<close>

text \<open>
  \<open>guessed s\<close> is the string held in \<open>guessedLetters\<close>; \<open>round_inv\<close> is the invariant of the
  loop, proved below to hold in every state a round passes through.
\<close>

definition guessed :: "round_state \<Rightarrow> string" where
  "guessed s = c_str (guessedLetters s)"

definition round_inv :: "string \<Rightarrow> round_state \<Rightarrow> bool" where
  "round_inv secretWord s =
     (length (displayWord s) = length secretWord \<and>
      (\<forall>i < length secretWord.
         displayWord s ! i =
           (if secretWord ! i \<in> set (guessed s) then secretWord ! i else CHR ''_'')) \<and>
      length (guessedLetters s) = ALPHABET_SIZE + 1 \<and>
      numGuessedLetters s \<le> ALPHABET_SIZE \<and>
      guessedLetters s ! numGuessedLetters s = NUL \<and>
      guessed s = take (numGuessedLetters s) (guessedLetters s) \<and>
      distinct (guessed s) \<and>
      (\<forall>c \<in> set (guessed s). islower_c c) \<and>
      incorrectGuesses s = int (length (filter (\<lambda>c. c \<notin> set secretWord) (guessed s))) \<and>
      (gameOver s = 0 \<or> gameOver s = 1) \<and>
      (playerWon s = 0 \<or> playerWon s = 1 \<and> gameOver s = 1))"

text \<open>
  The first \<open>n\<close> iterations of \<open>while (!gameOver)\<close>: the configurations the loop passes
  through are the values of \<open>gameTurns n\<close>.
\<close>

fun gameTurns ::
  "nat \<Rightarrow> string \<Rightarrow> int \<Rightarrow> string \<times> round_state \<times> message list \<Rightarrow> (string \<times> round_state \<times> message list) option" where
  "gameTurns 0 secretWord maxIncorrectGuesses cfg = Some cfg"
| "gameTurns (Suc n) secretWord maxIncorrectGuesses (inp, s, out) =
     (if gameOver s \<noteq> 0 then Some (inp, s, out)
      else (case gameTurn secretWord maxIncorrectGuesses (inp, s, out) of
              None \<Rightarrow> None
            | Some cfg \<Rightarrow> gameTurns n secretWord maxIncorrectGuesses cfg))"

definition guessLines :: "string \<Rightarrow> string" where
  "guessLines cs = concat (map (\<lambda>c. [c, newline]) cs)"

text \<open>The letters of the scoring messages of a log, in the order they were printed.\<close>

fun scoredLetters :: "message list \<Rightarrow> string" where
  "scoredLetters [] = []"
| "scoredLetters (GuessCorrect c # ms) = c # scoredLetters ms"
| "scoredLetters (GuessIncorrect c # ms) = c # scoredLetters ms"
| "scoredLetters (m # ms) = scoredLetters ms"

text \<open>The decimal numeral of a number, without leading zeros.\<close>

fun decimal :: "nat \<Rightarrow> string" where
  "decimal n =
     (if n < 10 then [char_of (48 + n)]
      else decimal (n div 10) @ [char_of (48 + n mod 10)])"

declare decimal.simps [simp del]

section \<open>Lemmas\<close>

lemma round_invD:
  assumes "round_inv w s"
  shows "length (displayWord s) = length w"
    and "\<forall>i < length w. displayWord s ! i =
           (if w ! i \<in> set (guessed s) then w ! i else CHR ''_'')"
    and "length (guessedLetters s) = ALPHABET_SIZE + 1"
    and "numGuessedLetters s \<le> ALPHABET_SIZE"
    and "guessedLetters s ! numGuessedLetters s = NUL"
    and "guessed s = take (numGuessedLetters s) (guessedLetters s)"
    and "distinct (guessed s)"
    and "\<forall>c \<in> set (guessed s). islower_c c"
    and "incorrectGuesses s = int (length (filter (\<lambda>c. c \<notin> set w) (guessed s)))"
    and "gameOver s = 0 \<or> gameOver s = 1"
    and "playerWon s = 0 \<or> playerWon s = 1 \<and> gameOver s = 1"
  using assms unfolding round_inv_def by blast+

lemma round_invI:
  assumes "length (displayWord s) = length w"
    and "\<forall>i < length w. displayWord s ! i =
           (if w ! i \<in> set (guessed s) then w ! i else CHR ''_'')"
    and "length (guessedLetters s) = ALPHABET_SIZE + 1"
    and "numGuessedLetters s \<le> ALPHABET_SIZE"
    and "guessedLetters s ! numGuessedLetters s = NUL"
    and "guessed s = take (numGuessedLetters s) (guessedLetters s)"
    and "distinct (guessed s)"
    and "\<forall>c \<in> set (guessed s). islower_c c"
    and "incorrectGuesses s = int (length (filter (\<lambda>c. c \<notin> set w) (guessed s)))"
    and "gameOver s = 0 \<or> gameOver s = 1"
    and "playerWon s = 0 \<or> playerWon s = 1 \<and> gameOver s = 1"
  shows "round_inv w s"
  using assms unfolding round_inv_def by blast

lemma round_inv_flags:
  assumes "round_inv w s" and "g = 0 \<or> g = 1" and "p = 0 \<or> p = 1 \<and> g = 1"
  shows "round_inv w (s\<lparr> gameOver := g, playerWon := p \<rparr>)"
proof -
  have e: "guessed (s\<lparr> gameOver := g, playerWon := p \<rparr>) = guessed s"
    by (simp add: guessed_def)
  show ?thesis
    by (rule round_invI) (use round_invD [OF assms(1)] assms(2,3) in \<open>simp_all add: e\<close>)
qed

subsection \<open>Characters\<close>

lemma islower_isalpha: "islower_c c \<Longrightarrow> isalpha_c c"
  by (simp add: isalpha_c_def)

lemma islower_not_upper: "islower_c c \<Longrightarrow> \<not> isupper_c c"
  by (simp add: islower_c_def isupper_c_def)

lemma tolower_lower: "islower_c c \<Longrightarrow> tolower_c c = c"
  by (simp add: tolower_c_def islower_not_upper)

lemma islower_not_NUL: "islower_c c \<Longrightarrow> c \<noteq> NUL"
  by (auto simp: islower_c_def NUL_def)

lemma islower_not_newline: "islower_c c \<Longrightarrow> c \<noteq> newline"
  by (auto simp: islower_c_def newline_def)

lemma islower_not_placeholder: "islower_c c \<Longrightarrow> c \<noteq> CHR ''_''"
  by (auto simp: islower_c_def)

lemma isalpha_tolower: "isalpha_c (tolower_c c) \<Longrightarrow> islower_c (tolower_c c)"
proof (cases "isupper_c c")
  case True
  then have "(of_char c :: nat) + 32 < 256" by (simp add: isupper_c_def)
  with True show ?thesis
    by (simp add: tolower_c_def islower_c_def isupper_c_def)
next
  case False
  assume "isalpha_c (tolower_c c)"
  with False show ?thesis by (simp add: tolower_c_def isalpha_c_def)
qed

lemma normalizeGuess_lower: "normalizeGuess buf = Inr c \<Longrightarrow> islower_c c"
  by (auto simp: normalizeGuess_def Let_def isalpha_tolower split: if_splits)

lemma lower_letters_card:
  assumes "distinct xs" and "\<forall>c \<in> set xs. islower_c c"
  shows "length xs \<le> 26"
proof -
  have "of_char ` set xs \<subseteq> {97 .. 122 :: nat}"
    using assms(2) by (auto simp: islower_c_def)
  then have "card (of_char ` set xs :: nat set) \<le> card {97 .. 122 :: nat}"
    by (intro card_mono) auto
  moreover have "card (of_char ` set xs :: nat set) = card (set xs)"
    by (rule card_image) (meson inj_of_char inj_on_subset subset_UNIV)
  moreover have "card (set xs) = length xs" using assms(1) by (rule distinct_card)
  ultimately show ?thesis by simp
qed

subsection \<open>Strings in buffers\<close>

lemma c_str_terminated: "NUL \<notin> set xs \<Longrightarrow> c_str (xs @ NUL # ys) = xs"
  by (induction xs) (auto simp: c_str_def)

lemma c_str_no_NUL: "NUL \<notin> set (c_str buf)"
  by (auto simp: c_str_def dest: set_takeWhileD)

lemma c_str_id: "NUL \<notin> set xs \<Longrightarrow> c_str xs = xs"
  by (induction xs) (auto simp: c_str_def)

lemma strchr_terminated: "NUL \<notin> set xs \<Longrightarrow> strchr_c (xs @ [NUL]) c = (c \<in> set xs)"
  by (simp add: strchr_c_def c_str_terminated)

subsection \<open>The scan of the secret word\<close>

lemma reveal_prefix:
  assumes "n \<le> length w" and "length d = length w"
  shows "\<exists>d'. foldl (\<lambda>(d, correctGuess) i.
                   if w ! i = c then (d[i := c], 1) else (d, correctGuess))
               (d, 0::int) [0 ..< n]
              = (d', if \<exists>i < n. w ! i = c then 1 else 0) \<and>
              length d' = length w \<and>
              (\<forall>i < length w. d' ! i = (if i < n \<and> w ! i = c then c else d ! i))"
  using assms
proof (induction n)
  case 0
  then show ?case by simp
next
  case (Suc n)
  then obtain d' where
    f: "foldl (\<lambda>(d, correctGuess) i.
                   if w ! i = c then (d[i := c], 1) else (d, correctGuess))
               (d, 0::int) [0 ..< n] = (d', if \<exists>i < n. w ! i = c then 1 else 0)"
    and l: "length d' = length w"
    and v: "\<forall>i < length w. d' ! i = (if i < n \<and> w ! i = c then c else d ! i)"
    by auto
  show ?case
  proof (cases "w ! n = c")
    case True
    have "\<forall>i < length w. d'[n := c] ! i = (if i < Suc n \<and> w ! i = c then c else d ! i)"
      using v l True Suc.prems by (auto simp: nth_list_update less_Suc_eq)
    moreover have "(\<exists>i < Suc n. w ! i = c)" using True by auto
    ultimately show ?thesis using f l True by simp
  next
    case False
    have "\<forall>i < length w. d' ! i = (if i < Suc n \<and> w ! i = c then c else d ! i)"
      using v False by (auto simp: less_Suc_eq)
    moreover have "(\<exists>i < Suc n. w ! i = c) = (\<exists>i < n. w ! i = c)"
      using False by (auto simp: less_Suc_eq)
    ultimately show ?thesis using f l False by simp
  qed
qed

lemma reveal_result:
  assumes "length d = length w"
  shows "\<exists>d'. reveal w c d = (d', if c \<in> set w then 1 else 0) \<and>
              length d' = length w \<and>
              (\<forall>i < length w. d' ! i = (if w ! i = c then c else d ! i))"
proof -
  from reveal_prefix [OF le_refl assms, of c] obtain d' where
    f: "foldl (\<lambda>(d, correctGuess) i.
                   if w ! i = c then (d[i := c], 1) else (d, correctGuess))
               (d, 0::int) [0 ..< length w] = (d', if \<exists>i < length w. w ! i = c then 1 else 0)"
    and l: "length d' = length w"
    and v: "\<forall>i < length w. d' ! i = (if i < length w \<and> w ! i = c then c else d ! i)"
    by blast
  have "(\<exists>i < length w. w ! i = c) = (c \<in> set w)" by (auto simp: in_set_conv_nth)
  with f l v show ?thesis by (auto simp: reveal_def)
qed

subsection \<open>A new letter\<close>

lemma guessed_strchr: "strchr_c (guessedLetters s) c = (c \<in> set (guessed s))"
  by (simp add: strchr_c_def guessed_def)

lemma append_two_cells:
  assumes "Suc n < length buf" and "NUL \<notin> set (take n buf)" and "c \<noteq> NUL"
  shows "c_str (buf[n := c, Suc n := NUL]) = take n buf @ [c]"
    and "take (Suc n) (buf[n := c, Suc n := NUL]) = take n buf @ [c]"
    and "buf[n := c, Suc n := NUL] ! Suc n = NUL"
proof -
  let ?b = "buf[n := c, Suc n := NUL]"
  have t1: "take (Suc n) ?b = take n buf @ [c]"
    using assms(1) by (simp add: take_Suc_conv_app_nth)
  have t2: "take (Suc (Suc n)) ?b = (take n buf @ [c]) @ [NUL]"
    using assms(1) t1 by (simp add: take_Suc_conv_app_nth [of "Suc n"])
  obtain ys where ys: "?b = ((take n buf @ [c]) @ [NUL]) @ ys"
    using t2 append_take_drop_id [of "Suc (Suc n)" ?b] by metis
  have "NUL \<notin> set (take n buf @ [c])" using assms(2,3) by auto
  then have "c_str (((take n buf @ [c]) @ [NUL]) @ ys) = take n buf @ [c]"
    using c_str_terminated [of "take n buf @ [c]" ys] by simp
  with ys show "c_str ?b = take n buf @ [c]" by (simp only:)
  show "take (Suc n) ?b = take n buf @ [c]" by (rule t1)
  show "?b ! Suc n = NUL" using assms(1) by simp
qed

lemma applyGuess_inv:
  assumes inv: "round_inv w s" and lower: "islower_c c"
    and new: "\<not> strchr_c (guessedLetters s) c"
  shows "\<exists>s'. applyGuess w c s = Some (s', if c \<in> set w then GuessCorrect c else GuessIncorrect c) \<and>
              guessed s' = guessed s @ [c] \<and>
              numGuessedLetters s' = numGuessedLetters s + 1 \<and>
              length (displayWord s') = length w \<and>
              (\<forall>i < length w. displayWord s' ! i = (if w ! i = c then c else displayWord s ! i)) \<and>
              incorrectGuesses s' = (if c \<in> set w then incorrectGuesses s else incorrectGuesses s + 1) \<and>
              gameOver s' = gameOver s \<and> playerWon s' = playerWon s \<and>
              round_inv w s'"
proof -
  let ?n = "numGuessedLetters s" and ?buf = "guessedLetters s"
  note d = round_invD [OF inv]
  have len: "length ?buf = 27" and n26: "?n \<le> 26"
    using d(3,4) by (simp_all add: ALPHABET_SIZE_def)
  note dl = d(1) and disp = d(2) and g = d(6) and dist = d(7) and low = d(8)
    and inc = d(9) and go = d(10) and pw = d(11)
  from new have cnew: "c \<notin> set (guessed s)" by (simp add: guessed_strchr)
  from g len n26 have gl: "length (guessed s) = ?n" by simp
  have "distinct (guessed s @ [c])" using dist cnew by simp
  moreover have "\<forall>x \<in> set (guessed s @ [c]). islower_c x" using low lower by simp
  ultimately have "length (guessed s @ [c]) \<le> 26" by (rule lower_letters_card)
  with gl have n25: "Suc ?n < length ?buf" using len by simp
  have nonul: "NUL \<notin> set (take ?n ?buf)"
    using low g islower_not_NUL by auto
  note cells = append_two_cells [OF n25 nonul islower_not_NUL [OF lower]]
  obtain d' where r: "reveal w c (displayWord s) = (d', if c \<in> set w then 1 else 0)"
    and dl': "length d' = length w"
    and d': "\<forall>i < length w. d' ! i = (if w ! i = c then c else displayWord s ! i)"
    using reveal_result [OF dl, of c] by blast
  define s' where "s' = s\<lparr> guessedLetters := ?buf[?n := c, Suc ?n := NUL],
                            numGuessedLetters := ?n + 1,
                            displayWord := d',
                            incorrectGuesses :=
                              (if c \<in> set w then incorrectGuesses s else incorrectGuesses s + 1) \<rparr>"
  have a: "applyGuess w c s = Some (s', if c \<in> set w then GuessCorrect c else GuessIncorrect c)"
    using n25 r by (simp add: applyGuess_def store_def s'_def)
  have gs': "guessed s' = guessed s @ [c]"
    using cells(1) g by (simp add: guessed_def s'_def)
  have i1: "\<forall>i < length w. displayWord s' ! i =
              (if w ! i \<in> set (guessed s') then w ! i else CHR ''_'')"
    using d' disp gs' by (auto simp: s'_def)
  have i2: "guessed s' = take (numGuessedLetters s') (guessedLetters s')"
    using cells(2) g gs' by (simp add: s'_def)
  have i3: "incorrectGuesses s' = int (length (filter (\<lambda>x. x \<notin> set w) (guessed s')))"
    using inc gs' by (simp add: s'_def)
  have i4: "guessedLetters s' ! numGuessedLetters s' = NUL"
    using cells(3) by (simp add: s'_def)
  have i5: "length (guessedLetters s') = ALPHABET_SIZE + 1 \<and> numGuessedLetters s' \<le> ALPHABET_SIZE"
    using len n25 by (simp add: s'_def ALPHABET_SIZE_def)
  have i6: "distinct (guessed s') \<and> (\<forall>x \<in> set (guessed s'). islower_c x)"
    using gs' dist cnew low lower by simp
  have i7: "length (displayWord s') = length w" using dl' by (simp add: s'_def)
  have i8: "gameOver s' = gameOver s \<and> playerWon s' = playerWon s" by (simp add: s'_def)
  have "round_inv w s'"
    by (rule round_invI) (use i1 i2 i3 i4 i5 i6 i7 i8 go pw in simp_all)
  moreover have "\<forall>i < length w. displayWord s' ! i = (if w ! i = c then c else displayWord s ! i)"
    using d' by (simp add: s'_def)
  moreover have "numGuessedLetters s' = numGuessedLetters s + 1" by (simp add: s'_def)
  moreover have "incorrectGuesses s' = (if c \<in> set w then incorrectGuesses s else incorrectGuesses s + 1)"
    by (simp add: s'_def)
  ultimately show ?thesis using a gs' i7 i8 by blast
qed

lemma initRound_inv: "round_inv w (initRound w)"
  by (simp add: round_inv_def initRound_def guessed_def c_str_def ALPHABET_SIZE_def)

lemma checkGameOver_inv: "round_inv w s \<Longrightarrow> round_inv w (checkGameOver m s)"
  by (simp add: checkGameOver_def round_inv_flags)

lemma eof_inv: "round_inv w s \<Longrightarrow> round_inv w (s\<lparr> gameOver := 1 \<rparr>)"
  using round_inv_flags [of w s 1 "playerWon s"] round_invD(11) [of w s] by auto

lemma gameTurn_inv:
  assumes "round_inv w s" and "gameTurn w m (inp, s, out) = Some (inp', s', out')"
  shows "round_inv w s'"
proof (cases "fgets INPUT_BUFFER_SIZE inp")
  case None
  with assms(2) have "s' = s\<lparr> gameOver := 1 \<rparr>" by (auto simp: gameTurn_def)
  with assms(1) show ?thesis by (simp add: eof_inv)
next
  case (Some br)
  obtain buf rest where br: "br = (buf, rest)" by (cases br)
  show ?thesis
  proof (cases "normalizeGuess buf")
    case (Inl e)
    with assms Some br show ?thesis by (auto simp: gameTurn_def)
  next
    case (Inr c)
    show ?thesis
    proof (cases "strchr_c (guessedLetters s) c")
      case True
      with assms Some br Inr show ?thesis by (auto simp: gameTurn_def)
    next
      case False
      from applyGuess_inv [OF assms(1) normalizeGuess_lower [OF Inr] False]
      obtain s1 m1 where "applyGuess w c s = Some (s1, m1)" and "round_inv w s1" by blast
      with assms Some br Inr False show ?thesis
        by (auto simp: gameTurn_def checkGameOver_inv)
    qed
  qed
qed

lemma gameTurn_no_fault:
  assumes "round_inv w s"
  shows "\<exists>cfg. gameTurn w m (inp, s, out) = Some cfg"
proof (cases "fgets INPUT_BUFFER_SIZE inp")
  case None
  then show ?thesis by (simp add: gameTurn_def)
next
  case (Some br)
  obtain buf rest where br: "br = (buf, rest)" by (cases br)
  show ?thesis
  proof (cases "normalizeGuess buf")
    case (Inl e)
    with Some br show ?thesis by (simp add: gameTurn_def)
  next
    case (Inr c)
    show ?thesis
    proof (cases "strchr_c (guessedLetters s) c")
      case True
      with Some br Inr show ?thesis by (simp add: gameTurn_def)
    next
      case False
      from applyGuess_inv [OF assms(1) normalizeGuess_lower [OF Inr] False]
      obtain s1 m1 where "applyGuess w c s = Some (s1, m1)" by blast
      with Some br Inr False show ?thesis by (simp add: gameTurn_def)
    qed
  qed
qed

subsection \<open>Invariants of the loops\<close>

lemma gameTurns_invariant:
  assumes "P s"
    and step: "\<And>inp s out inp' s' out'.
                 P s \<Longrightarrow> gameTurn w m (inp, s, out) = Some (inp', s', out') \<Longrightarrow> P s'"
    and "gameTurns n w m (inp, s, out) = Some (inp', s', out')"
  shows "P s'"
  using assms(1,3)
proof (induction n arbitrary: inp s out)
  case 0
  then show ?case by simp
next
  case (Suc n)
  show ?case
  proof (cases "gameOver s \<noteq> 0")
    case True
    with Suc.prems show ?thesis by simp
  next
    case False
    with Suc.prems obtain inp1 s1 out1
      where t: "gameTurn w m (inp, s, out) = Some (inp1, s1, out1)"
        and r: "gameTurns n w m (inp1, s1, out1) = Some (inp', s', out')"
      by (auto split: option.splits)
    from step [OF Suc.prems(1) t] have "P s1" .
    from Suc.IH [OF this r] show ?thesis .
  qed
qed

lemma gameLoop_invariant:
  assumes "P s"
    and step: "\<And>inp s out inp' s' out'.
                 P s \<Longrightarrow> gameTurn w m (inp, s, out) = Some (inp', s', out') \<Longrightarrow> P s'"
    and "gameLoop w m (inp, s, out) = Some (inp', s', out')"
  shows "P s' \<and> gameOver s' \<noteq> 0"
  using assms
proof (induction w m "(inp, s, out)" arbitrary: inp s out rule: gameLoop.induct)
  case (1 w m inp s out)
  show ?case
  proof (cases "gameOver s \<noteq> 0")
    case True
    with "1.prems"(1,3) show ?thesis by (simp add: gameLoop.simps)
  next
    case False
    with "1.prems"(3) obtain inp1 s1 out1
      where t: "gameTurn w m (inp, s, out) = Some (inp1, s1, out1)"
        and r: "gameLoop w m (inp1, s1, out1) = Some (inp', s', out')"
      by (auto simp: gameLoop.simps split: option.splits)
    from "1.prems"(1) t have "P s1" by (rule "1.prems"(2))
    from "1.hyps" [OF False t this "1.prems"(2) r] show ?thesis by simp
  qed
qed

lemma fgets_read_bound: "fgets_read k inp = (buf, rest) \<Longrightarrow> length buf \<le> k"
  by (induction k inp arbitrary: buf rest rule: fgets_read.induct)
     (auto split: if_splits prod.splits)

lemma fgets_buffer_fits:
  "fgets INPUT_BUFFER_SIZE inp = Some (buf, rest) \<Longrightarrow> length buf \<le> 9"
  by (auto simp: fgets_def INPUT_BUFFER_SIZE_def dest: fgets_read_bound split: if_splits)

lemma digits_value_bound:
  assumes "\<forall>c \<in> set ds. isdigit_c c" and "0 \<le> acc"
  shows "0 \<le> foldl (\<lambda>acc c. acc * 10 + (int (of_char c) - 48)) acc ds \<and>
         foldl (\<lambda>acc c. acc * 10 + (int (of_char c) - 48)) acc ds < (acc + 1) * 10 ^ length ds"
  using assms
proof (induction ds arbitrary: acc)
  case Nil
  then show ?case by simp
next
  case (Cons d ds)
  let ?a = "acc * 10 + (int (of_char d) - 48)"
  from Cons.prems have d: "48 \<le> (of_char d :: nat)" "(of_char d :: nat) \<le> 57"
    by (simp_all add: isdigit_c_def)
  then have a0: "0 \<le> ?a" and a9: "?a + 1 \<le> (acc + 1) * 10"
    using Cons.prems(2) by simp_all
  from Cons.IH [of ?a] Cons.prems a0
  have 1: "0 \<le> foldl (\<lambda>acc c. acc * 10 + (int (of_char c) - 48)) ?a ds"
    and 2: "foldl (\<lambda>acc c. acc * 10 + (int (of_char c) - 48)) ?a ds < (?a + 1) * 10 ^ length ds"
    by simp_all
  have 3: "(?a + 1) * 10 ^ length ds \<le> ((acc + 1) * 10) * 10 ^ length ds"
    using a9 by (intro mult_right_mono) simp_all
  have 4: "((acc + 1) * 10) * 10 ^ length ds = (acc + 1) * 10 ^ length (d # ds)"
    by simp
  have "foldl (\<lambda>acc c. acc * 10 + (int (of_char c) - 48)) ?a ds < (acc + 1) * 10 ^ length (d # ds)"
    using 2 3 unfolding 4 by (rule less_le_trans)
  with 1 show ?case by simp
qed

text \<open>
  The conversion cannot overflow an \<open>int\<close>: the buffer holds at most nine characters, so
  the value read is below \<open>10 ^ 9\<close> in absolute value.
\<close>

lemma sscanf_d_fits:
  assumes "length buf \<le> 9" and "sscanf_d buf = Some v"
  shows "\<bar>v\<bar> < 10 ^ 9"
proof -
  define s where "s = dropWhile isspace_c (c_str buf)"
  define t where "t = (if s \<noteq> [] \<and> (hd s = CHR ''-'' \<or> hd s = CHR ''+'') then tl s else s)"
  define ds where "ds = takeWhile isdigit_c t"
  have "length (c_str buf) \<le> length buf" by (simp add: c_str_def length_takeWhile_le)
  moreover have "length s \<le> length (c_str buf)" by (simp add: s_def length_dropWhile_le)
  moreover have "length t \<le> length s" by (simp add: t_def)
  moreover have "length ds \<le> length t" by (simp add: ds_def length_takeWhile_le)
  ultimately have l: "length ds \<le> 9" using assms(1) by simp
  have "\<forall>c \<in> set ds. isdigit_c c" by (auto simp: ds_def dest: set_takeWhileD)
  from digits_value_bound [OF this, of 0]
  have b: "0 \<le> digits_value ds" "digits_value ds < 10 ^ length ds"
    by (simp_all add: digits_value_def)
  have "(10::int) ^ length ds \<le> 10 ^ 9" using l by (intro power_increasing) simp_all
  with b have "\<bar>digits_value ds\<bar> < 10 ^ 9" by simp
  moreover from assms(2) have "v = digits_value ds \<or> v = - digits_value ds"
    by (auto simp: sscanf_d_def Let_def s_def t_def ds_def split: if_splits)
  ultimately show ?thesis by auto
qed

lemma selectDifficulty_banana:
  "selectDifficulty ''banana\<newline>'' = (6, InvalidChoiceDefault)"
  by (simp add: selectDifficulty_def sscanf_d_def c_str_def NUL_def isspace_c_def
      isdigit_c_def MEDIUM_GUESSES_def Let_def)

lemma gameTurns_inv:
  "round_inv w s \<Longrightarrow> gameTurns n w m (inp, s, out) = Some (inp', s', out') \<Longrightarrow> round_inv w s'"
  by (rule gameTurns_invariant [where P = "round_inv w"]) (auto intro: gameTurn_inv)

lemma gameLoop_inv:
  "round_inv w s \<Longrightarrow> gameLoop w m (inp, s, out) = Some (inp', s', out')
   \<Longrightarrow> round_inv w s' \<and> gameOver s' = 1"
  using gameLoop_invariant [where P = "round_inv w" and s = s and w = w and m = m
      and inp = inp and out = out and inp' = inp' and s' = s' and out' = out']
    gameTurn_inv [of w] round_invD(10) [of w s']
  by blast

lemma gameTurns_no_fault:
  "round_inv w s \<Longrightarrow> \<exists>cfg. gameTurns n w m (inp, s, out) = Some cfg"
proof (induction n arbitrary: inp s out)
  case 0
  then show ?case by simp
next
  case (Suc n)
  from gameTurn_no_fault [OF Suc.prems, of m inp out]
  obtain inp1 s1 out1 where t: "gameTurn w m (inp, s, out) = Some (inp1, s1, out1)"
    by (metis prod_cases3)
  from gameTurn_inv [OF Suc.prems t] have "round_inv w s1" .
  from Suc.IH [OF this, of inp1 out1] t show ?case by simp
qed

lemma gameLoop_no_fault:
  "round_inv w s \<Longrightarrow> \<exists>cfg. gameLoop w m (inp, s, out) = Some cfg"
proof (induction w m "(inp, s, out)" arbitrary: inp s out rule: gameLoop.induct)
  case (1 w m inp s out)
  show ?case
  proof (cases "gameOver s \<noteq> 0")
    case True
    then show ?thesis by (simp add: gameLoop.simps)
  next
    case False
    from gameTurn_no_fault [OF "1.prems", of m inp out]
    obtain inp1 s1 out1 where t: "gameTurn w m (inp, s, out) = Some (inp1, s1, out1)"
      by (metis prod_cases3)
    from gameTurn_inv [OF "1.prems" t] have "round_inv w s1" .
    from "1.hyps" [OF False t this] obtain cfg
      where c: "gameLoop w m (inp1, s1, out1) = Some cfg" by blast
    have "gameLoop w m (inp, s, out) = gameLoop w m (inp1, s1, out1)"
      using False t by (subst gameLoop.simps) simp
    with c have "gameLoop w m (inp, s, out) = Some cfg" by (simp only:)
    then show ?thesis ..
  qed
qed

lemma display_no_NUL:
  assumes "round_inv w s"
  shows "NUL \<notin> set (displayWord s)"
proof
  assume "NUL \<in> set (displayWord s)"
  then obtain i where i: "i < length (displayWord s)" and n: "displayWord s ! i = NUL"
    by (auto simp: in_set_conv_nth)
  note d = round_invD [OF assms]
  from i d(1) have iw: "i < length w" by simp
  with d(2) have v: "displayWord s ! i = (if w ! i \<in> set (guessed s) then w ! i else CHR ''_'')"
    by blast
  show False
  proof (cases "w ! i \<in> set (guessed s)")
    case True
    with d(8) have "islower_c (w ! i)" by blast
    with v n True islower_not_NUL show False by auto
  next
    case False
    with v n show False by (simp add: NUL_def)
  qed
qed

lemma display_strchr:
  "round_inv w s \<Longrightarrow>
   strchr_c (displayWord s @ [NUL]) (CHR ''_'') = (CHR ''_'' \<in> set (displayWord s))"
  by (simp add: strchr_terminated display_no_NUL)

lemma guessed_flags [simp]:
  "guessed (s\<lparr> gameOver := g \<rparr>) = guessed s"
  "guessed (s\<lparr> playerWon := p \<rparr>) = guessed s"
  by (simp_all add: guessed_def)

lemma guessed_checkGameOver [simp]: "guessed (checkGameOver m s) = guessed s"
  by (simp add: checkGameOver_def)

lemma gameTurn_guessed_mono:
  assumes "round_inv w s" and "gameTurn w m (inp, s, out) = Some (inp', s', out')"
  shows "set (guessed s) \<subseteq> set (guessed s')"
proof (cases "fgets INPUT_BUFFER_SIZE inp")
  case None
  with assms(2) show ?thesis by (auto simp: gameTurn_def)
next
  case (Some br)
  obtain buf rest where br: "br = (buf, rest)" by (cases br)
  show ?thesis
  proof (cases "normalizeGuess buf")
    case (Inl e)
    with assms Some br show ?thesis by (auto simp: gameTurn_def)
  next
    case (Inr c)
    show ?thesis
    proof (cases "strchr_c (guessedLetters s) c")
      case True
      with assms Some br Inr show ?thesis by (auto simp: gameTurn_def)
    next
      case False
      from applyGuess_inv [OF assms(1) normalizeGuess_lower [OF Inr] False]
      obtain s1 m1 where "applyGuess w c s = Some (s1, m1)" and "guessed s1 = guessed s @ [c]"
        by blast
      with assms Some br Inr False show ?thesis by (auto simp: gameTurn_def)
    qed
  qed
qed

lemma gameTurns_guessed_mono:
  assumes "round_inv w s" and "c \<in> set (guessed s)"
    and "gameTurns n w m (inp, s, out) = Some (inp', s', out')"
  shows "c \<in> set (guessed s')"
proof -
  have "round_inv w s' \<and> c \<in> set (guessed s')"
  proof (rule gameTurns_invariant [where P = "\<lambda>s. round_inv w s \<and> c \<in> set (guessed s)", OF _ _ assms(3)])
    show "round_inv w s \<and> c \<in> set (guessed s)" using assms(1,2) by simp
  next
    fix inp s out inp' s' out'
    assume "round_inv w s \<and> c \<in> set (guessed s)"
      and "gameTurn w m (inp, s, out) = Some (inp', s', out')"
    then show "round_inv w s' \<and> c \<in> set (guessed s')"
      using gameTurn_inv gameTurn_guessed_mono by blast
  qed
  then show ?thesis ..
qed

lemma accepted_turn:
  assumes "round_inv w s" and "fgets INPUT_BUFFER_SIZE inp = Some (buf, rest)"
    and "normalizeGuess buf = Inr c" and "\<not> strchr_c (guessedLetters s) c"
  shows "\<exists>s1 msg. applyGuess w c s = Some (s1, msg) \<and> round_inv w s1 \<and>
           gameTurn w m (inp, s, out) = Some (rest, checkGameOver m s1, out @ [PromptGuess, msg]) \<and>
           guessed s1 = guessed s @ [c] \<and>
           incorrectGuesses s1 = (if c \<in> set w then incorrectGuesses s else incorrectGuesses s + 1) \<and>
           gameOver s1 = gameOver s \<and> playerWon s1 = playerWon s"
proof -
  from applyGuess_inv [OF assms(1) normalizeGuess_lower [OF assms(3)] assms(4)]
  obtain s1 where a: "applyGuess w c s =
        Some (s1, if c \<in> set w then GuessCorrect c else GuessIncorrect c)"
    and r: "round_inv w s1" "guessed s1 = guessed s @ [c]"
      "incorrectGuesses s1 = (if c \<in> set w then incorrectGuesses s else incorrectGuesses s + 1)"
      "gameOver s1 = gameOver s" "playerWon s1 = playerWon s"
    by blast
  have "gameTurn w m (inp, s, out) =
          Some (rest, checkGameOver m s1,
                out @ [PromptGuess, if c \<in> set w then GuessCorrect c else GuessIncorrect c])"
    using assms(2,3,4) a by (simp add: gameTurn_def)
  with a r show ?thesis by blast
qed

lemma checkGameOver_cases:
  assumes "round_inv w s"
  shows "(incorrectGuesses s = m \<longrightarrow>
            gameOver (checkGameOver m s) = 1 \<and> playerWon (checkGameOver m s) = 0)"
    and "(incorrectGuesses s \<noteq> m \<and> CHR ''_'' \<notin> set (displayWord s) \<longrightarrow>
            gameOver (checkGameOver m s) = 1 \<and> playerWon (checkGameOver m s) = 1)"
    and "(incorrectGuesses s \<noteq> m \<and> CHR ''_'' \<in> set (displayWord s) \<longrightarrow>
            checkGameOver m s = s)"
  using display_strchr [OF assms] by (simp_all add: checkGameOver_def)

lemma placeholder_kept:
  assumes "round_inv w s" and "c \<in> set w" and "\<not> islower_c c"
  shows "CHR ''_'' \<in> set (displayWord s)"
proof -
  note d = round_invD [OF assms(1)]
  from assms(2) obtain i where i: "i < length w" and c: "w ! i = c"
    by (auto simp: in_set_conv_nth)
  from d(8) assms(3) c have "w ! i \<notin> set (guessed s)" by auto
  with d(2) i have "displayWord s ! i = CHR ''_''" by simp
  moreover from i d(1) have "i < length (displayWord s)" by simp
  ultimately show ?thesis by (metis nth_mem)
qed

lemma turn_keeps_not_won:
  assumes inv: "round_inv w s" and nw: "playerWon s = 0"
    and bad: "c \<in> set w" "\<not> islower_c c"
    and t: "gameTurn w m (inp, s, out) = Some (inp', s', out')"
  shows "playerWon s' = 0"
proof (cases "fgets INPUT_BUFFER_SIZE inp")
  case None
  with t nw show ?thesis by (auto simp: gameTurn_def)
next
  case (Some br)
  obtain buf rest where br: "br = (buf, rest)" by (cases br)
  show ?thesis
  proof (cases "normalizeGuess buf")
    case (Inl e)
    with t nw Some br show ?thesis by (auto simp: gameTurn_def)
  next
    case (Inr g)
    show ?thesis
    proof (cases "strchr_c (guessedLetters s) g")
      case True
      with t nw Some br Inr show ?thesis by (auto simp: gameTurn_def)
    next
      case False
      from accepted_turn [OF inv Some [unfolded br] Inr False, of m out]
      obtain s1 msg where r: "round_inv w s1"
        and g: "gameTurn w m (inp, s, out) = Some (rest, checkGameOver m s1, out @ [PromptGuess, msg])"
        and p: "playerWon s1 = playerWon s"
        by blast
      from g t have s': "s' = checkGameOver m s1" by simp
      from placeholder_kept [OF r bad] have "CHR ''_'' \<in> set (displayWord s1)" .
      with checkGameOver_cases(1,3) [OF r, of m] p nw s' show ?thesis
        by (cases "incorrectGuesses s1 = m") auto
    qed
  qed
qed

lemma guessLines_append: "guessLines (xs @ ys) = guessLines xs @ guessLines ys"
  by (simp add: guessLines_def)

lemma fgets_guess_line:
  assumes "islower_c c"
  shows "fgets INPUT_BUFFER_SIZE (guessLines (c # cs) @ inp) = Some ([c, newline], guessLines cs @ inp)"
  using islower_not_newline [OF assms]
  by (simp add: fgets_def INPUT_BUFFER_SIZE_def guessLines_def eval_nat_numeral)

lemma normalizeGuess_guess_line:
  assumes "islower_c c"
  shows "normalizeGuess [c, newline] = Inr c"
  using islower_not_NUL [OF assms] tolower_lower [OF assms] islower_isalpha [OF assms]
  by (simp add: normalizeGuess_def strlen_def c_str_def newline_def NUL_def)

lemma fresh_word_placeholder:
  assumes "round_inv w s" and "w \<noteq> []" and "set (guessed s) \<inter> set w = {}"
  shows "CHR ''_'' \<in> set (displayWord s)"
proof -
  note d = round_invD [OF assms(1)]
  from assms(2) have 0: "0 < length w" by simp
  then have "w ! 0 \<in> set w" by simp
  with assms(3) have "w ! 0 \<notin> set (guessed s)" by auto
  with d(2) 0 have "displayWord s ! 0 = CHR ''_''" by simp
  moreover from 0 d(1) have "0 < length (displayWord s)" by simp
  ultimately show ?thesis by (metis nth_mem)
qed

lemma misses_run:
  assumes "round_inv w s" and "gameOver s = 0" and "w \<noteq> []"
    and "set (guessed s) \<inter> set w = {}"
    and "distinct cs"
    and "\<forall>c \<in> set cs. islower_c c \<and> c \<notin> set w \<and> c \<notin> set (guessed s)"
    and "incorrectGuesses s + int (length cs) \<le> m" and "incorrectGuesses s < m"
  shows "\<exists>s' out'. gameTurns (length cs) w m (guessLines cs @ inp, s, out) = Some (inp, s', out') \<and>
           round_inv w s' \<and> guessed s' = guessed s @ cs \<and>
           incorrectGuesses s' = incorrectGuesses s + int (length cs) \<and>
           gameOver s' = (if incorrectGuesses s' = m then 1 else 0) \<and> playerWon s' = 0"
  using assms
proof (induction cs arbitrary: s out)
  case Nil
  from round_invD(11) [OF Nil.prems(1)] Nil.prems(2) have "playerWon s = 0" by simp
  with Nil.prems show ?case by (simp add: guessLines_def)
next
  case (Cons c cs)
  from Cons.prems(6) have low: "islower_c c" and cw: "c \<notin> set w" and cg: "c \<notin> set (guessed s)"
    by simp_all
  from cg have new: "\<not> strchr_c (guessedLetters s) c" by (simp add: guessed_strchr)
  from accepted_turn [OF Cons.prems(1) fgets_guess_line [OF low, of cs inp]
      normalizeGuess_guess_line [OF low] new, where m = m and out = out] cw
  obtain s1 msg where r: "round_inv w s1"
    and t: "gameTurn w m (guessLines (c # cs) @ inp, s, out) =
              Some (guessLines cs @ inp, checkGameOver m s1, out @ [PromptGuess, msg])"
    and g: "guessed s1 = guessed s @ [c]"
    and i: "incorrectGuesses s1 = incorrectGuesses s + 1"
    and go: "gameOver s1 = gameOver s" and pw: "playerWon s1 = playerWon s"
    by auto
  from round_invD(11) [OF Cons.prems(1)] Cons.prems(2) have pw0: "playerWon s = 0" by simp
  have nohit: "set (guessed s1) \<inter> set w = {}" using g cw Cons.prems(4) by auto
  from fresh_word_placeholder [OF r Cons.prems(3) nohit]
  have ph: "CHR ''_'' \<in> set (displayWord s1)" .
  have turns: "gameTurns (length (c # cs)) w m (guessLines (c # cs) @ inp, s, out) =
                 gameTurns (length cs) w m
                   (guessLines cs @ inp, checkGameOver m s1, out @ [PromptGuess, msg])"
    using Cons.prems(2) t by simp
  show ?case
  proof (cases "incorrectGuesses s1 = m")
    case True
    with i Cons.prems(7) have e: "cs = []" by simp
    let ?s2 = "checkGameOver m s1"
    from checkGameOver_cases(1) [OF r, of m] True
    have go2: "gameOver ?s2 = 1" and pw2: "playerWon ?s2 = 0" by simp_all
    have inc2: "incorrectGuesses ?s2 = incorrectGuesses s1"
      by (simp add: checkGameOver_def)
    have "gameTurns (length cs) w m (guessLines cs @ inp, ?s2, out @ [PromptGuess, msg]) =
            Some (inp, ?s2, out @ [PromptGuess, msg])"
      using e by (simp add: guessLines_def)
    with turns have T: "gameTurns (length (c # cs)) w m (guessLines (c # cs) @ inp, s, out) =
            Some (inp, ?s2, out @ [PromptGuess, msg])"
      by (rule trans)
    show ?thesis
    proof (intro exI conjI)
      show "gameTurns (length (c # cs)) w m (guessLines (c # cs) @ inp, s, out) =
              Some (inp, ?s2, out @ [PromptGuess, msg])" by (rule T)
      show "round_inv w ?s2" using r by (rule checkGameOver_inv)
      show "guessed ?s2 = guessed s @ c # cs" using g e by simp
      show "incorrectGuesses ?s2 = incorrectGuesses s + int (length (c # cs))"
        using inc2 i e by simp
      show "gameOver ?s2 = (if incorrectGuesses ?s2 = m then 1 else 0)"
        using go2 inc2 True by simp
      show "playerWon ?s2 = 0" by (rule pw2)
    qed
  next
    case False
    with checkGameOver_cases(3) [OF r, of m] ph have same: "checkGameOver m s1 = s1" by simp
    have d: "distinct cs" and nc: "c \<notin> set cs" using Cons.prems(5) by simp_all
    have a6: "\<forall>x \<in> set cs. islower_c x \<and> x \<notin> set w \<and> x \<notin> set (guessed s1)"
      using Cons.prems(6) g nc by auto
    have a7: "incorrectGuesses s1 + int (length cs) \<le> m" using i Cons.prems(7) by simp
    have a8: "incorrectGuesses s1 < m" using False a7 by simp
    from Cons.IH [OF r _ Cons.prems(3) nohit d a6 a7 a8, where out = "out @ [PromptGuess, msg]"]
      go Cons.prems(2)
    obtain s' out' where
      "gameTurns (length cs) w m (guessLines cs @ inp, s1, out @ [PromptGuess, msg]) =
         Some (inp, s', out')"
      "round_inv w s'" "guessed s' = guessed s1 @ cs"
      "incorrectGuesses s' = incorrectGuesses s1 + int (length cs)"
      "gameOver s' = (if incorrectGuesses s' = m then 1 else 0)" "playerWon s' = 0"
      by auto
    then have T: "gameTurns (length (c # cs)) w m (guessLines (c # cs) @ inp, s, out) =
            Some (inp, s', out')"
      and more: "round_inv w s'" "guessed s' = guessed s @ c # cs"
        "incorrectGuesses s' = incorrectGuesses s + int (length (c # cs))"
        "gameOver s' = (if incorrectGuesses s' = m then 1 else 0)" "playerWon s' = 0"
      using turns same g i by simp_all
    then show ?thesis by blast
  qed
qed

lemma applyGuess_playerWon:
  "applyGuess w c s = Some (s', msg) \<Longrightarrow>
   playerWon s' = playerWon s \<and> (msg = GuessCorrect c \<or> msg = GuessIncorrect c)"
  by (auto simp: applyGuess_def split: option.splits prod.splits if_splits)

lemma draft_gameTurn_playerWon:
  assumes "draft_gameTurn w (inp, s, out) = Some (inp', s', out')"
  shows "playerWon s' = playerWon s \<and>
         (\<exists>msg. out' = out @ [PromptGuess, msg] \<and> (\<forall>x. msg \<noteq> Congratulations x))"
proof (cases "fgets INPUT_BUFFER_SIZE inp")
  case None
  with assms show ?thesis by (auto simp: draft_gameTurn_def)
next
  case (Some br)
  obtain buf rest where br: "br = (buf, rest)" by (cases br)
  show ?thesis
  proof (cases "normalizeGuess buf")
    case (Inl e)
    with assms Some br show ?thesis by (auto simp: draft_gameTurn_def)
  next
    case (Inr c)
    then have al: "isalpha_c c" using normalizeGuess_lower islower_isalpha by blast
    show ?thesis
    proof (cases "strchr_c (guessedLetters s) c")
      case True
      with assms Some br Inr al show ?thesis by (auto simp: draft_gameTurn_def)
    next
      case False
      with assms Some br Inr al obtain s1 msg where a: "applyGuess w c s = Some (s1, msg)"
        and r: "(inp', s', out') =
                  (if MAX_INCORRECT_GUESSES - incorrectGuesses s \<le> 0 \<and> gameOver s1 = 0
                   then (draft_pauseForUser rest, s1\<lparr> gameOver := 1 \<rparr>, out @ [PromptGuess, msg])
                   else (rest, s1, out @ [PromptGuess, msg]))"
        by (auto simp: draft_gameTurn_def Let_def split: option.splits if_splits)
      from applyGuess_playerWon [OF a] r show ?thesis by (auto split: if_splits)
    qed
  qed
qed

lemma draft_gameTurn_inv:
  assumes "round_inv w s"
  shows "\<exists>inp' s' out'. draft_gameTurn w (inp, s, out) = Some (inp', s', out') \<and> round_inv w s'"
proof (cases "fgets INPUT_BUFFER_SIZE inp")
  case None
  with assms show ?thesis by (simp add: draft_gameTurn_def eof_inv)
next
  case (Some br)
  obtain buf rest where br: "br = (buf, rest)" by (cases br)
  show ?thesis
  proof (cases "normalizeGuess buf")
    case (Inl e)
    with assms Some br show ?thesis by (simp add: draft_gameTurn_def)
  next
    case (Inr c)
    then have al: "isalpha_c c" using normalizeGuess_lower islower_isalpha by blast
    show ?thesis
    proof (cases "strchr_c (guessedLetters s) c")
      case True
      with assms Some br Inr al show ?thesis by (simp add: draft_gameTurn_def)
    next
      case False
      from applyGuess_inv [OF assms normalizeGuess_lower [OF Inr] False]
      obtain s1 m1 where a: "applyGuess w c s = Some (s1, m1)" and r: "round_inv w s1" by blast
      from r have "round_inv w (s1\<lparr> gameOver := 1 \<rparr>)" by (rule eof_inv)
      with a r Some br Inr al False show ?thesis by (simp add: draft_gameTurn_def Let_def)
    qed
  qed
qed

lemma draft_gameLoop_result:
  assumes "round_inv w s" and "playerWon s = 0" and "\<forall>x. Congratulations x \<notin> set out"
  shows "\<exists>inp' s' out'. draft_gameLoop w (inp, s, out) = Some (inp', s', out') \<and>
           round_inv w s' \<and> playerWon s' = 0 \<and> (\<forall>x. Congratulations x \<notin> set out')"
  using assms
proof (induction w "(inp, s, out)" arbitrary: inp s out rule: draft_gameLoop.induct)
  case (1 w inp s out)
  show ?case
  proof (cases "gameOver s \<noteq> 0")
    case True
    with "1.prems" show ?thesis by (simp add: draft_gameLoop.simps)
  next
    case False
    from draft_gameTurn_inv [OF "1.prems"(1), of inp out]
    obtain inp1 s1 out1 where t: "draft_gameTurn w (inp, s, out) = Some (inp1, s1, out1)"
      and r: "round_inv w s1" by blast
    from draft_gameTurn_playerWon [OF t] "1.prems"(2,3)
    have p: "playerWon s1 = 0" and o: "\<forall>x. Congratulations x \<notin> set out1" by auto
    have "draft_gameLoop w (inp, s, out) = draft_gameLoop w (inp1, s1, out1)"
      using False t by (subst draft_gameLoop.simps) simp
    with "1.hyps" [OF False t r p o] show ?thesis by simp
  qed
qed

lemma gameLoop_at_eof:
  assumes "gameOver s = 0"
  shows "gameLoop w m ([], s, out) = Some ([], s\<lparr> gameOver := 1 \<rparr>, out @ [PromptGuess, EofDetected])"
proof -
  have "gameTurn w m ([], s, out) = Some ([], s\<lparr> gameOver := 1 \<rparr>, out @ [PromptGuess, EofDetected])"
    by (simp add: gameTurn_def fgets_def)
  with assms have "gameLoop w m ([], s, out) =
      gameLoop w m ([], s\<lparr> gameOver := 1 \<rparr>, out @ [PromptGuess, EofDetected])"
    by (subst gameLoop.simps) simp
  also have "\<dots> = Some ([], s\<lparr> gameOver := 1 \<rparr>, out @ [PromptGuess, EofDetected])"
    by (subst gameLoop.simps) simp
  finally show ?thesis .
qed

lemma gameTurn_output:
  assumes "gameTurn w m (inp, s, out) = Some (inp', s', out')"
  shows "(inp = [] \<longrightarrow> inp' = [] \<and> s' = s\<lparr> gameOver := 1 \<rparr> \<and> out' = out @ [PromptGuess, EofDetected]) \<and>
         (inp \<noteq> [] \<longrightarrow> (\<exists>msg. out' = out @ [PromptGuess, msg] \<and> msg \<noteq> EofDetected))"
proof (cases "fgets INPUT_BUFFER_SIZE inp")
  case None
  with assms show ?thesis by (auto simp: gameTurn_def fgets_def split: if_splits)
next
  case (Some br)
  obtain buf rest where br: "br = (buf, rest)" by (cases br)
  from Some have ne: "inp \<noteq> []" by (auto simp: fgets_def split: if_splits)
  show ?thesis
  proof (cases "normalizeGuess buf")
    case (Inl e)
    with assms Some br ne show ?thesis by (auto simp: gameTurn_def)
  next
    case (Inr c)
    show ?thesis
    proof (cases "strchr_c (guessedLetters s) c")
      case True
      with assms Some br Inr ne show ?thesis by (auto simp: gameTurn_def)
    next
      case False
      with assms Some br Inr obtain s1 msg where a: "applyGuess w c s = Some (s1, msg)"
        and o: "out' = out @ [PromptGuess, msg]"
        by (auto simp: gameTurn_def split: option.splits)
      from applyGuess_playerWon [OF a] o ne show ?thesis by auto
    qed
  qed
qed

lemma gameLoop_eof:
  assumes "round_inv w s"
    and "gameLoop w m (inp, s, out) = Some (inp', s', out')"
    and "EofDetected \<notin> set out" and "EofDetected \<in> set out'"
  shows "inp' = [] \<and> playerWon s' = 0"
  using assms
proof (induction w m "(inp, s, out)" arbitrary: inp s out rule: gameLoop.induct)
  case (1 w m inp s out)
  show ?case
  proof (cases "gameOver s \<noteq> 0")
    case True
    with "1.prems"(2) have "out' = out" by (simp add: gameLoop.simps)
    with "1.prems"(3,4) show ?thesis by simp
  next
    case False
    with "1.prems"(2) obtain inp1 s1 out1
      where t: "gameTurn w m (inp, s, out) = Some (inp1, s1, out1)"
        and l: "gameLoop w m (inp1, s1, out1) = Some (inp', s', out')"
      by (auto simp: gameLoop.simps split: option.splits)
    from gameTurn_inv [OF "1.prems"(1) t] have r1: "round_inv w s1" .
    note o = gameTurn_output [OF t]
    show ?thesis
    proof (cases "inp = []")
      case True
      with o have e: "inp1 = []" "s1 = s\<lparr> gameOver := 1 \<rparr>" by simp_all
      with l have "inp' = inp1" "s' = s1" by (simp_all add: gameLoop.simps)
      moreover from round_invD(11) [OF "1.prems"(1)] False have "playerWon s = 0" by simp
      ultimately show ?thesis using e by simp
    next
      case False
      with o "1.prems"(3) have "EofDetected \<notin> set out1" by auto
      from "1.hyps" [OF \<open>\<not> gameOver s \<noteq> 0\<close> t r1 l this "1.prems"(4)] show ?thesis .
    qed
  qed
qed

lemma tolower_is_y: "(tolower_c c = CHR ''y'') = (c = CHR ''y'' \<or> c = CHR ''Y'')"
proof (cases "isupper_c c")
  case True
  then have b: "65 \<le> (of_char c :: nat)" "(of_char c :: nat) \<le> 90" by (simp_all add: isupper_c_def)
  have "(char_of ((of_char c :: nat) + 32) = CHR ''y'') = ((of_char c :: nat) = 89)"
    using b by (simp add: char_of_eq_iff take_bit_eq_mod)
  also have "\<dots> = (c = CHR ''Y'')"
  proof -
    have "(of_char (CHR ''Y'') :: nat) = 89" by simp
    then show ?thesis by (metis of_char_eq_iff)
  qed
  finally have "(tolower_c c = CHR ''y'') = (c = CHR ''Y'')" using True by (simp add: tolower_c_def)
  moreover have "c \<noteq> CHR ''y''" using b by auto
  ultimately show ?thesis by simp
next
  case False
  then show ?thesis by (auto simp: tolower_c_def isupper_c_def)
qed

lemma readPlayAgain_y:
  "(fst (readPlayAgain inp) = CHR ''y'') =
   (\<exists>resp rest. fgets INPUT_BUFFER_SIZE inp = Some (resp, rest) \<and>
      (hd resp = CHR ''y'' \<or> hd resp = CHR ''Y''))"
proof (cases "fgets INPUT_BUFFER_SIZE inp")
  case None
  then show ?thesis by (simp add: readPlayAgain_def)
next
  case (Some br)
  obtain resp rest where br: "br = (resp, rest)" by (cases br)
  from Some br obtain a r where resp: "resp = a # r"
    by (cases inp; cases resp)
       (auto simp: fgets_def INPUT_BUFFER_SIZE_def eval_nat_numeral split: if_splits prod.splits)
  have "(0 < strlen resp) = (a \<noteq> NUL)" by (simp add: resp strlen_def c_str_def)
  moreover have "CHR ''y'' \<noteq> NUL" "CHR ''Y'' \<noteq> NUL" by (simp_all add: NUL_def)
  ultimately show ?thesis
    using Some br resp by (auto simp: readPlayAgain_def tolower_is_y)
qed

lemma selectDifficulty_message: "snd (selectDifficulty buf) \<noteq> EofDetected"
  by (simp add: selectDifficulty_def Let_def)

text \<open>
  On a line that ends in a newline and fits the buffer, the checks of lines 800-814 are:
  exactly one character before the newline, and that character a letter.
\<close>

lemma normalizeGuess_terminated_line:
  assumes "NUL \<notin> set line"
  shows "normalizeGuess (line @ [newline]) =
           (if length line \<noteq> 1 then Inl InvalidFormatError
            else if \<not> isalpha_c (hd line) then Inl InvalidLetterError
            else Inr (tolower_c (hd line)))"
proof -
  have "NUL \<notin> set (line @ [newline])" using assms by (simp add: NUL_def newline_def)
  then have l: "strlen (line @ [newline]) = Suc (length line)"
    by (simp add: strlen_def c_str_id del: set_append)
  show ?thesis
  proof (cases "length line = 1")
    case False
    with l show ?thesis by (simp add: normalizeGuess_def)
  next
    case True
    then obtain c where c: "line = [c]" by (cases line) auto
    have "isalpha_c (tolower_c c) = isalpha_c c"
    proof (cases "isupper_c c")
      case True
      then have "(of_char c :: nat) + 32 < 256" by (simp add: isupper_c_def)
      with True show ?thesis
        by (simp add: tolower_c_def isalpha_c_def islower_c_def isupper_c_def)
    next
      case False
      then show ?thesis by (simp add: tolower_c_def)
    qed
    with l c show ?thesis by (simp add: normalizeGuess_def Let_def)
  qed
qed

lemma scoredLetters_append: "scoredLetters (xs @ ys) = scoredLetters xs @ scoredLetters ys"
  by (induction xs rule: scoredLetters.induct) simp_all

lemma gameTurn_scored:
  assumes "round_inv w s" and "gameTurn w m (inp, s, out) = Some (inp', s', out')"
  shows "\<exists>ms. out' = out @ ms \<and> guessed s' = guessed s @ scoredLetters ms"
proof (cases "fgets INPUT_BUFFER_SIZE inp")
  case None
  with assms(2) show ?thesis by (auto simp: gameTurn_def)
next
  case (Some br)
  obtain buf rest where br: "br = (buf, rest)" by (cases br)
  show ?thesis
  proof (cases "normalizeGuess buf")
    case (Inl e)
    with assms Some br show ?thesis by (auto simp: gameTurn_def)
  next
    case (Inr c)
    show ?thesis
    proof (cases "strchr_c (guessedLetters s) c")
      case True
      with assms Some br Inr show ?thesis by (auto simp: gameTurn_def)
    next
      case False
      from accepted_turn [OF assms(1) Some [unfolded br] Inr False, where m = m and out = out]
      obtain s1 msg where a: "applyGuess w c s = Some (s1, msg)"
        and t: "gameTurn w m (inp, s, out) = Some (rest, checkGameOver m s1, out @ [PromptGuess, msg])"
        and g: "guessed s1 = guessed s @ [c]"
        by blast
      from applyGuess_playerWon [OF a] have "scoredLetters [PromptGuess, msg] = [c]" by auto
      with t g assms(2) show ?thesis by auto
    qed
  qed
qed

lemma gameTurns_scored:
  assumes "round_inv w s" and "gameTurns n w m (inp, s, out) = Some (inp', s', out')"
  shows "\<exists>ms. out' = out @ ms \<and> guessed s' = guessed s @ scoredLetters ms"
  using assms
proof (induction n arbitrary: inp s out)
  case 0
  then show ?case by simp
next
  case (Suc n)
  show ?case
  proof (cases "gameOver s \<noteq> 0")
    case True
    with Suc.prems show ?thesis by simp
  next
    case False
    with Suc.prems(2) obtain inp1 s1 out1
      where t: "gameTurn w m (inp, s, out) = Some (inp1, s1, out1)"
        and r: "gameTurns n w m (inp1, s1, out1) = Some (inp', s', out')"
      by (auto split: option.splits)
    from gameTurn_scored [OF Suc.prems(1) t] obtain ms1
      where 1: "out1 = out @ ms1" "guessed s1 = guessed s @ scoredLetters ms1" by blast
    from Suc.IH [OF gameTurn_inv [OF Suc.prems(1) t] r] obtain ms2
      where 2: "out' = out1 @ ms2" "guessed s' = guessed s1 @ scoredLetters ms2" by blast
    from 1 2 have "out' = out @ (ms1 @ ms2) \<and> guessed s' = guessed s @ scoredLetters (ms1 @ ms2)"
      by (simp add: scoredLetters_append)
    then show ?thesis by blast
  qed
qed

lemma gameLoop_scored:
  assumes "round_inv w s" and "gameLoop w m (inp, s, out) = Some (inp', s', out')"
  shows "\<exists>ms. out' = out @ ms \<and> guessed s' = guessed s @ scoredLetters ms"
  using assms
proof (induction w m "(inp, s, out)" arbitrary: inp s out rule: gameLoop.induct)
  case (1 w m inp s out)
  show ?case
  proof (cases "gameOver s \<noteq> 0")
    case True
    with "1.prems"(2) show ?thesis by (simp add: gameLoop.simps)
  next
    case False
    with "1.prems"(2) obtain inp1 s1 out1
      where t: "gameTurn w m (inp, s, out) = Some (inp1, s1, out1)"
        and r: "gameLoop w m (inp1, s1, out1) = Some (inp', s', out')"
      by (auto simp: gameLoop.simps split: option.splits)
    from gameTurn_scored [OF "1.prems"(1) t] obtain ms1
      where 1: "out1 = out @ ms1" "guessed s1 = guessed s @ scoredLetters ms1" by blast
    from "1.hyps" [OF False t gameTurn_inv [OF "1.prems"(1) t] r] obtain ms2
      where 2: "out' = out1 @ ms2" "guessed s' = guessed s1 @ scoredLetters ms2" by blast
    from 1 2 have "out' = out @ (ms1 @ ms2) \<and> guessed s' = guessed s @ scoredLetters (ms1 @ ms2)"
      by (simp add: scoredLetters_append)
    then show ?thesis by blast
  qed
qed

lemma guessed_initRound: "guessed (initRound w) = []"
  by (simp add: guessed_def initRound_def c_str_def ALPHABET_SIZE_def)

lemma digit_char_value:
  assumes "d < 10"
  shows "isdigit_c (char_of (48 + d))" and "int (of_char (char_of (48 + d))) - 48 = int d"
proof -
  have "(48 + d) mod 256 = 48 + d" using assms by simp
  then have "(of_char (char_of (48 + d)) :: nat) = 48 + d" by simp
  then show "isdigit_c (char_of (48 + d))" "int (of_char (char_of (48 + d))) - 48 = int d"
    using assms by (simp_all add: isdigit_c_def)
qed

lemma decimal_digits: "\<forall>c \<in> set (decimal n). isdigit_c c"
proof (induction n rule: decimal.induct)
  case (1 n)
  show ?case
  proof (cases "n < 10")
    case True
    then show ?thesis by (subst decimal.simps) (simp add: digit_char_value(1))
  next
    case False
    have "n mod 10 < 10" by simp
    with "1.IH" [OF False] False show ?thesis
      by (subst decimal.simps) (simp add: digit_char_value(1))
  qed
qed

lemma decimal_nonempty: "decimal n \<noteq> []"
  by (subst decimal.simps) simp

lemma digits_value_snoc:
  "digits_value (ds @ [c]) = digits_value ds * 10 + (int (of_char c) - 48)"
  by (simp add: digits_value_def)

lemma digits_value_decimal: "digits_value (decimal n) = int n"
proof (induction n rule: decimal.induct)
  case (1 n)
  show ?case
  proof (cases "n < 10")
    case True
    then show ?thesis
      by (subst decimal.simps) (simp add: digits_value_def digit_char_value(2))
  next
    case False
    have m: "n mod 10 < 10" by simp
    have "digits_value (decimal n) =
            digits_value (decimal (n div 10)) * 10 + (int (of_char (char_of (48 + n mod 10))) - 48)"
      using False by (subst decimal.simps) (simp add: digits_value_snoc)
    also have "\<dots> = int (n div 10) * 10 + int (n mod 10)"
      using "1.IH" [OF False] digit_char_value(2) [OF m] by simp
    also have "\<dots> = int n" by (simp add: zmod_int zdiv_int) 
    finally show ?thesis .
  qed
qed

lemma digits_value_zeros:
  "digits_value (replicate k (CHR ''0'') @ ds) = digits_value ds"
proof -
  have "foldl (\<lambda>acc c. acc * 10 + (int (of_char c) - 48)) 0 (replicate k (CHR ''0'')) = 0"
    by (induction k) simp_all
  then show ?thesis by (simp add: digits_value_def)
qed


lemma isdigit_other:
  assumes "isdigit_c c"
  shows "\<not> isspace_c c" "c \<noteq> CHR ''+''" "c \<noteq> CHR ''-''" "c \<noteq> NUL"
  using assms by (auto simp: isdigit_c_def isspace_c_def NUL_def)

lemma isspace_other:
  assumes "isspace_c c"
  shows "c \<noteq> NUL" "c \<noteq> CHR ''+''" "c \<noteq> CHR ''-''"
  using assms by (auto simp: isspace_c_def NUL_def)

lemma sign_other:
  "\<not> isspace_c (CHR ''+'')" "\<not> isspace_c (CHR ''-'')"
  "\<not> isdigit_c (CHR ''+'')" "\<not> isdigit_c (CHR ''-'')"
  "CHR ''+'' \<noteq> NUL" "CHR ''-'' \<noteq> NUL" "\<not> isdigit_c NUL" "\<not> isspace_c NUL"
  by (simp_all add: isspace_c_def isdigit_c_def NUL_def)

lemma c_str_append: "NUL \<notin> set xs \<Longrightarrow> c_str (xs @ ys) = xs @ c_str ys"
  by (induction xs) (auto simp: c_str_def)

lemma c_str_head:
  "c_str tail = [] \<and> (tail = [] \<or> hd tail = NUL) \<or>
   c_str tail \<noteq> [] \<and> tail \<noteq> [] \<and> hd (c_str tail) = hd tail"
  by (cases tail) (auto simp: c_str_def)

lemma dropWhile_spaces:
  assumes "\<forall>c \<in> set ws. isspace_c c" and "xs = [] \<or> \<not> isspace_c (hd xs)"
  shows "dropWhile isspace_c (ws @ xs) = xs"
proof -
  have "dropWhile isspace_c (ws @ xs) = dropWhile isspace_c xs"
    using assms(1) by (simp add: dropWhile_append2)
  also have "\<dots> = xs" using assms(2) by (cases xs) auto
  finally show ?thesis .
qed

lemma takeWhile_digits:
  assumes "\<forall>c \<in> set ds. isdigit_c c" and "xs = [] \<or> \<not> isdigit_c (hd xs)"
  shows "takeWhile isdigit_c (ds @ xs) = ds"
proof -
  have "takeWhile isdigit_c (ds @ xs) = ds @ takeWhile isdigit_c xs"
    using assms(1) by (simp add: takeWhile_append2)
  also have "\<dots> = ds" using assms(2) by (cases xs) auto
  finally show ?thesis .
qed

text \<open>
  What \<open>sscanf\<close> reads from a buffer that starts with white space, an optional sign and
  digits, and what it reads when no digit follows.
\<close>

lemma sscanf_d_number:
  assumes ws: "\<forall>c \<in> set ws. isspace_c c"
    and sg: "sg = [] \<or> sg = ''+'' \<or> sg = ''-''"
    and ds: "ds \<noteq> []" "\<forall>c \<in> set ds. isdigit_c c"
    and tail: "tail = [] \<or> \<not> isdigit_c (hd tail)"
  shows "sscanf_d (ws @ sg @ ds @ tail) =
           Some (if sg = ''-'' then - digits_value ds else digits_value ds)"
proof -
  let ?t = "c_str tail"
  have n: "NUL \<notin> set (ws @ sg @ ds)"
    using ws sg ds(2) isspace_other(1) isdigit_other(4) sign_other(5,6) by auto
  have c: "c_str (ws @ sg @ ds @ tail) = ws @ sg @ ds @ ?t"
    using c_str_append [OF n, of tail] by simp
  have t: "?t = [] \<or> \<not> isdigit_c (hd ?t)"
    using c_str_head [of tail] tail by auto
  have tw: "takeWhile isdigit_c (ds @ ?t) = ds" using ds(2) t by (rule takeWhile_digits)
  obtain d ds' where d: "ds = d # ds'" using ds(1) by (cases ds) auto
  with ds(2) have dd: "isdigit_c d" by simp
  from sg show ?thesis
  proof (elim disjE)
    assume s: "sg = []"
    have "dropWhile isspace_c (ws @ ds @ ?t) = ds @ ?t"
      using ws by (rule dropWhile_spaces) (simp add: d isdigit_other(1) [OF dd])
    with s c tw d isdigit_other(2,3) [OF dd] ds(1) show ?thesis
      by (simp add: sscanf_d_def Let_def)
  next
    assume s: "sg = ''+''"
    have "dropWhile isspace_c (ws @ CHR ''+'' # ds @ ?t) = CHR ''+'' # ds @ ?t"
      using ws by (rule dropWhile_spaces) (simp add: sign_other)
    with s c tw ds(1) show ?thesis by (simp add: sscanf_d_def Let_def)
  next
    assume s: "sg = ''-''"
    have "dropWhile isspace_c (ws @ CHR ''-'' # ds @ ?t) = CHR ''-'' # ds @ ?t"
      using ws by (rule dropWhile_spaces) (simp add: sign_other)
    with s c tw ds(1) show ?thesis by (simp add: sscanf_d_def Let_def)
  qed
qed

lemma sscanf_d_no_number:
  assumes ws: "\<forall>c \<in> set ws. isspace_c c"
    and sg: "sg = [] \<or> sg = ''+'' \<or> sg = ''-''"
    and tail: "tail = [] \<or> \<not> isdigit_c (hd tail)"
    and plain: "sg = [] \<longrightarrow>
                  tail = [] \<or> \<not> isspace_c (hd tail) \<and> hd tail \<noteq> CHR ''+'' \<and> hd tail \<noteq> CHR ''-''"
  shows "sscanf_d (ws @ sg @ tail) = None"
proof -
  let ?t = "c_str tail"
  have n: "NUL \<notin> set (ws @ sg)"
    using ws sg isspace_other(1) sign_other(5,6) by auto
  have c: "c_str (ws @ sg @ tail) = ws @ sg @ ?t"
    using c_str_append [OF n, of tail] by simp
  have t: "?t = [] \<or> \<not> isdigit_c (hd ?t)"
    using c_str_head [of tail] tail by auto
  then have tw: "takeWhile isdigit_c ?t = []" by (cases ?t) auto
  from sg show ?thesis
  proof (elim disjE)
    assume s: "sg = []"
    have p: "?t = [] \<or> \<not> isspace_c (hd ?t) \<and> hd ?t \<noteq> CHR ''+'' \<and> hd ?t \<noteq> CHR ''-''"
      using c_str_head [of tail] plain s by auto
    then have "dropWhile isspace_c (ws @ ?t) = ?t"
      using ws by (intro dropWhile_spaces) auto
    with s c tw p show ?thesis by (auto simp: sscanf_d_def Let_def)
  next
    assume s: "sg = ''+''"
    have "dropWhile isspace_c (ws @ CHR ''+'' # ?t) = CHR ''+'' # ?t"
      using ws by (rule dropWhile_spaces) (simp add: sign_other)
    with s c tw show ?thesis by (simp add: sscanf_d_def Let_def)
  next
    assume s: "sg = ''-''"
    have "dropWhile isspace_c (ws @ CHR ''-'' # ?t) = CHR ''-'' # ?t"
      using ws by (rule dropWhile_spaces) (simp add: sign_other)
    with s c tw show ?thesis by (simp add: sscanf_d_def Let_def)
  qed
qed


lemma digit_of_char:
  assumes "isdigit_c d"
  shows "\<exists>v::nat. v < 10 \<and> d = char_of (48 + v)"
proof -
  define v :: nat where "v = of_char d - 48"
  from assms have b: "48 \<le> (of_char d :: nat)" "(of_char d :: nat) \<le> 57"
    by (simp_all add: isdigit_c_def)
  then have "v < 10" and "48 + v = (of_char d :: nat)" by (simp_all add: v_def)
  then have "v < 10 \<and> d = char_of (48 + v)" by simp
  then show ?thesis by blast
qed

lemma decimal_zero: "decimal 0 = ''0''"
  by code_simp

lemma digits_as_decimal:
  assumes "ds \<noteq> []" and "\<forall>c \<in> set ds. isdigit_c c"
  shows "\<exists>k n. ds = replicate k (CHR ''0'') @ decimal n"
  using assms
proof (induction ds rule: rev_nonempty_induct)
  case (single d)
  then obtain v :: nat where v: "v < 10" "d = char_of (48 + v)" using digit_of_char by auto
  then have "[d] = replicate 0 (CHR ''0'') @ decimal v" by (subst decimal.simps) simp
  then show ?case by blast
next
  case (snoc d ds)
  then obtain k n where e: "ds = replicate k (CHR ''0'') @ decimal n" by auto
  from snoc.prems obtain v :: nat where v: "v < 10" "d = char_of (48 + v)"
    using digit_of_char by auto
  show ?case
  proof (cases "n = 0")
    case True
    have "decimal v = [d]" using v by (subst decimal.simps) simp
    with e True have "ds @ [d] = replicate (Suc k) (CHR ''0'') @ decimal v"
      by (simp add: decimal_zero replicate_append_same)
    then show ?thesis by blast
  next
    case False
    with v(1) have "\<not> 10 * n + v < 10" "(10 * n + v) div 10 = n" "(10 * n + v) mod 10 = v"
      by simp_all
    then have "decimal (10 * n + v) = decimal n @ [d]"
      using v(2) by (subst decimal.simps) simp
    with e have "ds @ [d] = replicate k (CHR ''0'') @ decimal (10 * n + v)" by simp
    then show ?thesis by blast
  qed
qed

text \<open>Every buffer has one of the two forms of the lemmas above.\<close>

lemma buffer_forms:
  "\<exists>ws sg tail.
     (\<forall>c \<in> set ws. isspace_c c) \<and> (sg = [] \<or> sg = ''+'' \<or> sg = ''-'') \<and>
     (tail = [] \<or> \<not> isdigit_c (hd tail)) \<and>
     ((\<exists>k n. buf = ws @ sg @ replicate k (CHR ''0'') @ decimal n @ tail) \<or>
      buf = ws @ sg @ tail \<and>
      (sg = [] \<longrightarrow>
         tail = [] \<or> \<not> isspace_c (hd tail) \<and> hd tail \<noteq> CHR ''+'' \<and> hd tail \<noteq> CHR ''-''))"
proof -
  define ws where "ws = takeWhile isspace_c buf"
  define r1 where "r1 = dropWhile isspace_c buf"
  define sg where "sg = (if r1 \<noteq> [] \<and> (hd r1 = CHR ''+'' \<or> hd r1 = CHR ''-'') then [hd r1] else [])"
  define r2 where "r2 = (if r1 \<noteq> [] \<and> (hd r1 = CHR ''+'' \<or> hd r1 = CHR ''-'') then tl r1 else r1)"
  define ds where "ds = takeWhile isdigit_c r2"
  define tail where "tail = dropWhile isdigit_c r2"
  have b: "buf = ws @ r1" by (simp add: ws_def r1_def)
  have r: "r1 = sg @ r2" by (simp add: sg_def r2_def)
  have d: "r2 = ds @ tail" by (simp add: ds_def tail_def)
  have w: "\<forall>c \<in> set ws. isspace_c c" by (auto simp: ws_def dest: set_takeWhileD)
  have s: "sg = [] \<or> sg = ''+'' \<or> sg = ''-''" by (auto simp: sg_def)
  have t: "tail = [] \<or> \<not> isdigit_c (hd tail)"
    unfolding tail_def by (metis hd_dropWhile)
  have dd: "\<forall>c \<in> set ds. isdigit_c c" by (auto simp: ds_def dest: set_takeWhileD)
  have r1h: "r1 = [] \<or> \<not> isspace_c (hd r1)" unfolding r1_def by (metis hd_dropWhile)
  show ?thesis
  proof (cases "ds = []")
    case False
    from digits_as_decimal [OF False dd] obtain k n
      where "ds = replicate k (CHR ''0'') @ decimal n" by blast
    with b r d have "buf = ws @ sg @ replicate k (CHR ''0'') @ decimal n @ tail" by simp
    with w s t show ?thesis by blast
  next
    case True
    with b r d have e: "buf = ws @ sg @ tail" by simp
    have "sg = [] \<longrightarrow>
            tail = [] \<or> \<not> isspace_c (hd tail) \<and> hd tail \<noteq> CHR ''+'' \<and> hd tail \<noteq> CHR ''-''"
    proof
      assume n: "sg = []"
      then have "r2 = r1" and "r1 = [] \<or> (hd r1 \<noteq> CHR ''+'' \<and> hd r1 \<noteq> CHR ''-'')"
        by (auto simp: sg_def r2_def split: if_splits)
      with True d r1h
      show "tail = [] \<or> \<not> isspace_c (hd tail) \<and> hd tail \<noteq> CHR ''+'' \<and> hd tail \<noteq> CHR ''-''"
        by auto
    qed
    with w s t e show ?thesis by blast
  qed
qed

lemma fgets_read_line:
  "newline \<notin> set l \<Longrightarrow>
   fgets_read k (l @ newline # rest) = (take k (l @ [newline]), drop k (l @ [newline]) @ rest)"
proof (induction l arbitrary: k)
  case Nil
  then show ?case by (cases k) simp_all
next
  case (Cons c l)
  then show ?case by (cases k) auto
qed

lemma fgets_line:
  "newline \<notin> set l \<Longrightarrow>
   fgets INPUT_BUFFER_SIZE (l @ newline # rest) =
     Some (take 9 (l @ [newline]), drop 9 (l @ [newline]) @ rest)"
  by (simp add: fgets_def INPUT_BUFFER_SIZE_def fgets_read_line)

lemma selectDifficulty_number:
  assumes "\<forall>c \<in> set ws. isspace_c c" and "sg = [] \<or> sg = ''+'' \<or> sg = ''-''"
    and "tail = [] \<or> \<not> isdigit_c (hd tail)"
  shows "selectDifficulty (ws @ sg @ replicate k (CHR ''0'') @ decimal n @ tail) =
           (if sg \<noteq> ''-'' \<and> n = 1 then (8, DifficultySelected 8)
            else if sg \<noteq> ''-'' \<and> n = 2 then (6, DifficultySelected 6)
            else if sg \<noteq> ''-'' \<and> n = 3 then (4, DifficultySelected 4)
            else (6, InvalidChoiceDefault))"
proof -
  let ?ds = "replicate k (CHR ''0'') @ decimal n"
  have z: "isdigit_c (CHR ''0'')" by (simp add: isdigit_c_def)
  have 1: "?ds \<noteq> []" by (simp add: decimal_nonempty)
  have 2: "\<forall>c \<in> set ?ds. isdigit_c c" using decimal_digits [of n] z by auto
  have v: "digits_value ?ds = int n" by (simp add: digits_value_zeros digits_value_decimal)
  from sscanf_d_number [OF assms(1,2) 1 2 assms(3)] v
  have "sscanf_d (ws @ sg @ ?ds @ tail) = Some (if sg = ''-'' then - int n else int n)"
    by simp
  then have "sscanf_d (ws @ sg @ replicate k (CHR ''0'') @ decimal n @ tail) =
               Some (if sg = ''-'' then - int n else int n)"
    by simp
  then show ?thesis
    by (simp add: selectDifficulty_def EASY_GUESSES_def MEDIUM_GUESSES_def HARD_GUESSES_def)
qed

lemma selectDifficulty_no_number:
  assumes "\<forall>c \<in> set ws. isspace_c c" and "sg = [] \<or> sg = ''+'' \<or> sg = ''-''"
    and "tail = [] \<or> \<not> isdigit_c (hd tail)"
    and "sg = [] \<longrightarrow>
           tail = [] \<or> \<not> isspace_c (hd tail) \<and> hd tail \<noteq> CHR ''+'' \<and> hd tail \<noteq> CHR ''-''"
  shows "selectDifficulty (ws @ sg @ tail) = (6, InvalidChoiceDefault)"
  using sscanf_d_no_number [OF assms] by (simp add: selectDifficulty_def MEDIUM_GUESSES_def)

section \<open>Properties of the game\<close>

text \<open>
  C6. The difficulty is chosen from the first nine bytes of the line, which is all that
  \<open>fgets\<close> puts into the buffer of ten bytes (the newline included when it is among
  them); the rest of the line is discarded by \<open>pauseForUser\<close> and the round starts at once
  with the chosen budget, without a second prompt. When these bytes are white space, an
  optional sign and the decimal numeral of \<open>n\<close> (possibly after zeros), not followed by a
  digit, the budget is 8 for 1, 6 for 2, 4 for 3 and 6, with the notice of the default,
  for every other number; when no digit follows the white space and the sign, the
  budget is 6 with the notice. Every buffer has one of these two forms. A line of at
  most eight characters is in the buffer whole, so that it selects by the number it
  reads as; the line \<open>banana\<close> gives Medium.
\<close>

theorem difficulty_from_first_bytes:
  "(newline \<notin> set l \<longrightarrow>
      fgets INPUT_BUFFER_SIZE (l @ newline # rest) =
        Some (take 9 (l @ [newline]), drop 9 (l @ [newline]) @ rest) \<and>
      sessionBody wordList r (l @ newline # rest) out =
        (case playRound (wordList ! (r mod length wordList))
                (fst (selectDifficulty (take 9 (l @ [newline]))))
                (pauseForUser (drop 9 (l @ [newline]) @ rest))
                (out @ [PromptDifficulty, snd (selectDifficulty (take 9 (l @ [newline])))]) of
           None \<Rightarrow> None
         | Some (inp', s, out') \<Rightarrow>
             Some (fst (readPlayAgain inp'), snd (readPlayAgain inp'), out' @ [PromptPlayAgain]))) \<and>
   ((\<forall>c \<in> set ws. isspace_c c) \<and> (sg = [] \<or> sg = ''+'' \<or> sg = ''-'') \<and>
    (tail = [] \<or> \<not> isdigit_c (hd tail)) \<longrightarrow>
      selectDifficulty (ws @ sg @ replicate k (CHR ''0'') @ decimal n @ tail) =
        (if sg \<noteq> ''-'' \<and> n = 1 then (8, DifficultySelected 8)
         else if sg \<noteq> ''-'' \<and> n = 2 then (6, DifficultySelected 6)
         else if sg \<noteq> ''-'' \<and> n = 3 then (4, DifficultySelected 4)
         else (6, InvalidChoiceDefault))) \<and>
   ((\<forall>c \<in> set ws. isspace_c c) \<and> (sg = [] \<or> sg = ''+'' \<or> sg = ''-'') \<and>
    (tail = [] \<or> \<not> isdigit_c (hd tail)) \<and>
    (sg = [] \<longrightarrow>
       tail = [] \<or> \<not> isspace_c (hd tail) \<and> hd tail \<noteq> CHR ''+'' \<and> hd tail \<noteq> CHR ''-'') \<longrightarrow>
      selectDifficulty (ws @ sg @ tail) = (6, InvalidChoiceDefault)) \<and>
   (\<exists>ws sg tail.
      (\<forall>c \<in> set ws. isspace_c c) \<and> (sg = [] \<or> sg = ''+'' \<or> sg = ''-'') \<and>
      (tail = [] \<or> \<not> isdigit_c (hd tail)) \<and>
      ((\<exists>k n. buf = ws @ sg @ replicate k (CHR ''0'') @ decimal n @ tail) \<or>
       buf = ws @ sg @ tail \<and>
       (sg = [] \<longrightarrow>
          tail = [] \<or> \<not> isspace_c (hd tail) \<and> hd tail \<noteq> CHR ''+'' \<and> hd tail \<noteq> CHR ''-''))) \<and>
   (newline \<notin> set l \<and> length l \<le> 8 \<and>
    l = ws @ sg @ replicate k (CHR ''0'') @ decimal n @ tail \<and>
    (\<forall>c \<in> set ws. isspace_c c) \<and> (sg = [] \<or> sg = ''+'' \<or> sg = ''-'') \<and>
    (tail = [] \<or> \<not> isdigit_c (hd tail)) \<longrightarrow>
      fgets INPUT_BUFFER_SIZE (l @ newline # rest) = Some (l @ [newline], rest) \<and>
      selectDifficulty (l @ [newline]) =
        (if sg \<noteq> ''-'' \<and> n = 1 then (8, DifficultySelected 8)
         else if sg \<noteq> ''-'' \<and> n = 2 then (6, DifficultySelected 6)
         else if sg \<noteq> ''-'' \<and> n = 3 then (4, DifficultySelected 4)
         else (6, InvalidChoiceDefault))) \<and>
   selectDifficulty ''banana\<newline>'' = (6, InvalidChoiceDefault)"
proof -
  have A: "newline \<notin> set l \<longrightarrow>
      fgets INPUT_BUFFER_SIZE (l @ newline # rest) =
        Some (take 9 (l @ [newline]), drop 9 (l @ [newline]) @ rest) \<and>
      sessionBody wordList r (l @ newline # rest) out =
        (case playRound (wordList ! (r mod length wordList))
                (fst (selectDifficulty (take 9 (l @ [newline]))))
                (pauseForUser (drop 9 (l @ [newline]) @ rest))
                (out @ [PromptDifficulty, snd (selectDifficulty (take 9 (l @ [newline])))]) of
           None \<Rightarrow> None
         | Some (inp', s, out') \<Rightarrow>
             Some (fst (readPlayAgain inp'), snd (readPlayAgain inp'), out' @ [PromptPlayAgain]))"
  proof
    assume n: "newline \<notin> set l"
    note f = fgets_line [OF n, of rest]
    have "sessionBody wordList r (l @ newline # rest) out =
        (case playRound (wordList ! (r mod length wordList))
                (fst (selectDifficulty (take 9 (l @ [newline]))))
                (pauseForUser (drop 9 (l @ [newline]) @ rest))
                (out @ [PromptDifficulty, snd (selectDifficulty (take 9 (l @ [newline])))]) of
           None \<Rightarrow> None
         | Some (inp', s, out') \<Rightarrow>
             Some (fst (readPlayAgain inp'), snd (readPlayAgain inp'), out' @ [PromptPlayAgain]))"
      unfolding sessionBody_def f by (simp split: prod.splits option.splits)
    with f show "fgets INPUT_BUFFER_SIZE (l @ newline # rest) =
        Some (take 9 (l @ [newline]), drop 9 (l @ [newline]) @ rest) \<and>
      sessionBody wordList r (l @ newline # rest) out =
        (case playRound (wordList ! (r mod length wordList))
                (fst (selectDifficulty (take 9 (l @ [newline]))))
                (pauseForUser (drop 9 (l @ [newline]) @ rest))
                (out @ [PromptDifficulty, snd (selectDifficulty (take 9 (l @ [newline])))]) of
           None \<Rightarrow> None
         | Some (inp', s, out') \<Rightarrow>
             Some (fst (readPlayAgain inp'), snd (readPlayAgain inp'), out' @ [PromptPlayAgain]))"
      by (rule conjI)
  qed
  have B: "(\<forall>c \<in> set ws. isspace_c c) \<and> (sg = [] \<or> sg = ''+'' \<or> sg = ''-'') \<and>
    (tail = [] \<or> \<not> isdigit_c (hd tail)) \<longrightarrow>
      selectDifficulty (ws @ sg @ replicate k (CHR ''0'') @ decimal n @ tail) =
        (if sg \<noteq> ''-'' \<and> n = 1 then (8, DifficultySelected 8)
         else if sg \<noteq> ''-'' \<and> n = 2 then (6, DifficultySelected 6)
         else if sg \<noteq> ''-'' \<and> n = 3 then (4, DifficultySelected 4)
         else (6, InvalidChoiceDefault))"
    using selectDifficulty_number [of ws sg tail k n] by blast
  have C: "(\<forall>c \<in> set ws. isspace_c c) \<and> (sg = [] \<or> sg = ''+'' \<or> sg = ''-'') \<and>
    (tail = [] \<or> \<not> isdigit_c (hd tail)) \<and>
    (sg = [] \<longrightarrow>
       tail = [] \<or> \<not> isspace_c (hd tail) \<and> hd tail \<noteq> CHR ''+'' \<and> hd tail \<noteq> CHR ''-'') \<longrightarrow>
      selectDifficulty (ws @ sg @ tail) = (6, InvalidChoiceDefault)"
    using selectDifficulty_no_number [of ws sg tail] by blast
  have E: "newline \<notin> set l \<and> length l \<le> 8 \<and>
    l = ws @ sg @ replicate k (CHR ''0'') @ decimal n @ tail \<and>
    (\<forall>c \<in> set ws. isspace_c c) \<and> (sg = [] \<or> sg = ''+'' \<or> sg = ''-'') \<and>
    (tail = [] \<or> \<not> isdigit_c (hd tail)) \<longrightarrow>
      fgets INPUT_BUFFER_SIZE (l @ newline # rest) = Some (l @ [newline], rest) \<and>
      selectDifficulty (l @ [newline]) =
        (if sg \<noteq> ''-'' \<and> n = 1 then (8, DifficultySelected 8)
         else if sg \<noteq> ''-'' \<and> n = 2 then (6, DifficultySelected 6)
         else if sg \<noteq> ''-'' \<and> n = 3 then (4, DifficultySelected 4)
         else (6, InvalidChoiceDefault))"
  proof
    assume h: "newline \<notin> set l \<and> length l \<le> 8 \<and>
      l = ws @ sg @ replicate k (CHR ''0'') @ decimal n @ tail \<and>
      (\<forall>c \<in> set ws. isspace_c c) \<and> (sg = [] \<or> sg = ''+'' \<or> sg = ''-'') \<and>
      (tail = [] \<or> \<not> isdigit_c (hd tail))"
    then have n: "newline \<notin> set l" and len: "length l \<le> 8"
      and l: "l = ws @ sg @ replicate k (CHR ''0'') @ decimal n @ tail"
      and w: "\<forall>c \<in> set ws. isspace_c c" and s: "sg = [] \<or> sg = ''+'' \<or> sg = ''-''"
      and t: "tail = [] \<or> \<not> isdigit_c (hd tail)"
      by blast+
    have nd: "\<not> isdigit_c newline" by (simp add: isdigit_c_def newline_def)
    have t': "tail @ [newline] = [] \<or> \<not> isdigit_c (hd (tail @ [newline]))"
      using t nd by (cases tail) auto
    from fgets_line [OF n, of rest] len
    have f: "fgets INPUT_BUFFER_SIZE (l @ newline # rest) = Some (l @ [newline], rest)" by simp
    have "l @ [newline] = ws @ sg @ replicate k (CHR ''0'') @ decimal n @ (tail @ [newline])"
      by (subst l) simp
    with selectDifficulty_number [OF w s t', of k n] f
    show "fgets INPUT_BUFFER_SIZE (l @ newline # rest) = Some (l @ [newline], rest) \<and>
      selectDifficulty (l @ [newline]) =
        (if sg \<noteq> ''-'' \<and> n = 1 then (8, DifficultySelected 8)
         else if sg \<noteq> ''-'' \<and> n = 2 then (6, DifficultySelected 6)
         else if sg \<noteq> ''-'' \<and> n = 3 then (4, DifficultySelected 4)
         else (6, InvalidChoiceDefault))"
      by (simp only:)
  qed
  show ?thesis
    by (rule conjI [OF A conjI [OF B conjI [OF C conjI [OF buffer_forms
          conjI [OF E selectDifficulty_banana]]]]])
qed

text \<open>
  The line \<open>0000000001\<close> reads as 1 but only its first nine bytes reach the buffer, which
  read as 0: the default is selected, with the notice. The line \<open>0000000012\<close> reads as 12
  and selects Easy.
\<close>

theorem difficulty_long_line_truncated:
  "sscanf_d ''0000000001\<newline>'' = Some 1 \<and>
   fgets INPUT_BUFFER_SIZE ''0000000001\<newline>\<newline>'' = Some (''000000000'', ''1\<newline>\<newline>'') \<and>
   selectDifficulty ''000000000'' = (6, InvalidChoiceDefault) \<and>
   sessionBody [''cat''] 0 ''0000000001\<newline>\<newline>'' [] =
     Some (CHR ''n'', [],
           [PromptDifficulty, InvalidChoiceDefault, PromptGuess, Rejected InvalidFormatError,
            PromptGuess, EofDetected, SorryOutOfGuesses ''cat'', PromptPlayAgain]) \<and>
   sscanf_d ''0000000012\<newline>'' = Some 12 \<and>
   fgets INPUT_BUFFER_SIZE ''0000000012\<newline>\<newline>'' = Some (''000000001'', ''2\<newline>\<newline>'') \<and>
   selectDifficulty ''000000001'' = (8, DifficultySelected 8)"
proof -
  have p: "sscanf_d ''0000000001\<newline>'' = Some 1" "sscanf_d ''0000000012\<newline>'' = Some 12"
    "sscanf_d ''000000000'' = Some 0" "sscanf_d ''000000001'' = Some 1"
    by (simp_all add: sscanf_d_def c_str_def NUL_def isspace_c_def isdigit_c_def
        digits_value_def Let_def)
  have f: "fgets INPUT_BUFFER_SIZE ''0000000001\<newline>\<newline>'' = Some (''000000000'', ''1\<newline>\<newline>'')"
    "fgets INPUT_BUFFER_SIZE ''0000000012\<newline>\<newline>'' = Some (''000000001'', ''2\<newline>\<newline>'')"
    by (simp_all add: fgets_def INPUT_BUFFER_SIZE_def newline_def eval_nat_numeral)
  have s: "selectDifficulty ''000000000'' = (6, InvalidChoiceDefault)"
    "selectDifficulty ''000000001'' = (8, DifficultySelected 8)"
    by (simp_all add: selectDifficulty_def p MEDIUM_GUESSES_def EASY_GUESSES_def)
  have pz: "pauseForUser ''1\<newline>\<newline>'' = ''\<newline>''"
    by (simp add: pauseForUser_def consumeRemainingInput_def newline_def)
  have r: "playRound ''cat'' 6 ''\<newline>'' [PromptDifficulty, InvalidChoiceDefault] =
             Some ([], (initRound ''cat'')\<lparr> gameOver := 1 \<rparr>,
                   [PromptDifficulty, InvalidChoiceDefault, PromptGuess,
                    Rejected InvalidFormatError, PromptGuess, EofDetected,
                    SorryOutOfGuesses ''cat''])"
    by (simp add: playRound_def gameLoop.simps gameTurn_def fgets_def INPUT_BUFFER_SIZE_def
        newline_def eval_nat_numeral normalizeGuess_def strlen_def c_str_def NUL_def
        pauseForUser_def consumeRemainingInput_def initRound_def)
  have rp: "readPlayAgain [] = (CHR ''n'', [])" by (simp add: readPlayAgain_def fgets_def)
  have b: "sessionBody [''cat''] 0 ''0000000001\<newline>\<newline>'' [] =
     Some (CHR ''n'', [],
           [PromptDifficulty, InvalidChoiceDefault, PromptGuess, Rejected InvalidFormatError,
            PromptGuess, EofDetected, SorryOutOfGuesses ''cat'', PromptPlayAgain])"
    by (simp add: sessionBody_def f s pz r rp)
  from p f s b show ?thesis by simp
qed


theorem difficulty_from_first_bytes_witness:
  "newline \<notin> set ''2'' \<and>
   fgets INPUT_BUFFER_SIZE ''2\<newline>\<newline>'' = Some (''2\<newline>'', ''\<newline>'') \<and>
   decimal 2 = ''2'' \<and>
   selectDifficulty ''2\<newline>'' = (6, DifficultySelected 6) \<and>
   isspace_c (CHR '' '') \<and> \<not> isdigit_c (CHR ''x'') \<and> decimal 3 = ''3'' \<and>
   selectDifficulty '' +03x'' = (4, DifficultySelected 4) \<and>
   \<not> isdigit_c (CHR ''q'') \<and>
   selectDifficulty '' -q'' = (6, InvalidChoiceDefault)"
proof -
  have n: "newline \<notin> set ''2''" by (simp add: newline_def)
  have d2: "decimal 2 = ''2''" and d3: "decimal 3 = ''3''" by code_simp+
  have sp: "isspace_c (CHR '' '')" by (simp add: isspace_c_def)
  have x: "\<not> isdigit_c (CHR ''x'')" and q: "\<not> isdigit_c (CHR ''q'')"
    by (simp_all add: isdigit_c_def)
  note T = difficulty_from_first_bytes [where l = "''2''" and rest = "''\<newline>''"
      and ws = "[]" and sg = "[]" and k = 0 and n = 2 and tail = "[]"]
  have h1: "newline \<notin> set ''2'' \<and> length ''2'' \<le> 8 \<and>
      ''2'' = [] @ [] @ replicate 0 (CHR ''0'') @ decimal 2 @ [] \<and>
      (\<forall>c \<in> set []. isspace_c c) \<and> ([] = [] \<or> [] = ''+'' \<or> [] = ''-'') \<and>
      ([] = [] \<or> \<not> isdigit_c (hd []))"
    using n d2 by simp
  from T [THEN conjunct2, THEN conjunct2, THEN conjunct2, THEN conjunct2, THEN conjunct1,
      THEN mp, OF h1]
  have e: "fgets INPUT_BUFFER_SIZE ''2\<newline>\<newline>'' = Some (''2\<newline>'', ''\<newline>'')"
    "selectDifficulty ''2\<newline>'' = (6, DifficultySelected 6)"
    by (simp_all add: newline_def)
  have h2: "(\<forall>c \<in> set '' ''. isspace_c c) \<and> (''+'' = [] \<or> ''+'' = ''+'' \<or> ''+'' = ''-'') \<and>
      (''x'' = [] \<or> \<not> isdigit_c (hd ''x''))"
    using sp x by simp
  from difficulty_from_first_bytes [where ws = "'' ''" and sg = "''+''" and k = 1 and n = 3
      and tail = "''x''", THEN conjunct2, THEN conjunct1, THEN mp, OF h2]
  have b: "selectDifficulty '' +03x'' = (4, DifficultySelected 4)"
    by (simp add: d3)
  have h3: "(\<forall>c \<in> set '' ''. isspace_c c) \<and> (''-'' = [] \<or> ''-'' = ''+'' \<or> ''-'' = ''-'') \<and>
      (''q'' = [] \<or> \<not> isdigit_c (hd ''q'')) \<and>
      (''-'' = [] \<longrightarrow>
         ''q'' = [] \<or> \<not> isspace_c (hd ''q'') \<and> hd ''q'' \<noteq> CHR ''+'' \<and> hd ''q'' \<noteq> CHR ''-'')"
    using sp q by simp
  from difficulty_from_first_bytes [where ws = "'' ''" and sg = "''-''" and tail = "''q''",
      THEN conjunct2, THEN conjunct2, THEN conjunct1, THEN mp, OF h3]
  have c: "selectDifficulty '' -q'' = (6, InvalidChoiceDefault)"
    by simp
  from n e d2 d3 sp x q b c show ?thesis by simp
qed

text \<open>
  C4. A line of two characters that does not end in a newline (the last line of the
  input, cut by the end of the input) passes the length check \<open>strlen(inputBuffer) != 2\<close>
  and its first character is taken as the guess.
\<close>

theorem normalizeGuess_unterminated_line:
  "fgets INPUT_BUFFER_SIZE ''ab'' = Some (''ab'', []) \<and> normalizeGuess ''ab'' = Inr (CHR ''a'') \<and>
   fgets INPUT_BUFFER_SIZE ''a'' = Some (''a'', []) \<and> normalizeGuess ''a'' = Inl InvalidFormatError"
  by (simp add: fgets_def INPUT_BUFFER_SIZE_def newline_def eval_nat_numeral normalizeGuess_def
      strlen_def c_str_def NUL_def tolower_c_def isupper_c_def isalpha_c_def islower_c_def)

text \<open>
  C2. In a state of a round in progress, a letter that passed the checks of the line and
  is not yet in \<open>guessedLetters\<close> is appended to \<open>guessedLetters\<close>; every position of the
  secret word holding the letter is revealed in \<open>displayWord\<close> and the other positions are
  left as they were; \<open>incorrectGuesses\<close> grows by exactly one when the letter is at no
  position and is unchanged otherwise. The comparison is \<open>secretWord[i] == currentGuess\<close>;
  on a secret word already in lower case it agrees with a comparison that ignores case.
\<close>

theorem applyGuess_new_letter:
  assumes "round_inv w s" and "normalizeGuess buf = Inr c"
    and "\<not> strchr_c (guessedLetters s) c"
  shows "\<exists>s' msg. applyGuess w c s = Some (s', msg) \<and>
           guessed s' = guessed s @ [c] \<and>
           length (displayWord s') = length w \<and>
           (\<forall>i < length w. displayWord s' ! i = (if w ! i = c then w ! i else displayWord s ! i)) \<and>
           (c \<notin> set w \<longrightarrow> incorrectGuesses s' = incorrectGuesses s + 1) \<and>
           (c \<in> set w \<longrightarrow> incorrectGuesses s' = incorrectGuesses s) \<and>
           ((\<forall>i < length w. tolower_c (w ! i) = w ! i) \<longrightarrow>
              (\<forall>i < length w. tolower_c (w ! i) = tolower_c c \<longrightarrow> displayWord s' ! i = w ! i))"
proof -
  from assms(2) have low: "islower_c c" by (rule normalizeGuess_lower)
  from applyGuess_inv [OF assms(1) low assms(3)] obtain s' where
    a: "applyGuess w c s = Some (s', if c \<in> set w then GuessCorrect c else GuessIncorrect c)"
    and g: "guessed s' = guessed s @ [c]"
    and l: "length (displayWord s') = length w"
    and d: "\<forall>i < length w. displayWord s' ! i = (if w ! i = c then c else displayWord s ! i)"
    and i: "incorrectGuesses s' = (if c \<in> set w then incorrectGuesses s else incorrectGuesses s + 1)"
    by blast
  have d1: "\<forall>i < length w. displayWord s' ! i = (if w ! i = c then w ! i else displayWord s ! i)"
    using d by auto
  have d2: "(\<forall>i < length w. tolower_c (w ! i) = w ! i) \<longrightarrow>
              (\<forall>i < length w. tolower_c (w ! i) = tolower_c c \<longrightarrow> displayWord s' ! i = w ! i)"
    using d tolower_lower [OF low] by auto
  from a g l d1 d2 i show ?thesis by auto
qed

theorem applyGuess_new_letter_witness:
  "round_inv ''cat'' (initRound ''cat'') \<and> normalizeGuess ''a\<newline>'' = Inr (CHR ''a'') \<and>
   \<not> strchr_c (guessedLetters (initRound ''cat'')) (CHR ''a'') \<and>
   (\<exists>s' msg. applyGuess ''cat'' (CHR ''a'') (initRound ''cat'') = Some (s', msg) \<and>
      guessed s' = guessed (initRound ''cat'') @ ''a'' \<and>
      length (displayWord s') = length ''cat'' \<and>
      displayWord s' ! 1 = CHR ''a'' \<and>
      incorrectGuesses s' = incorrectGuesses (initRound ''cat''))"
proof -
  have h1: "round_inv ''cat'' (initRound ''cat'')" by (rule initRound_inv)
  have h2: "normalizeGuess ''a\<newline>'' = Inr (CHR ''a'')"
    by (simp add: normalizeGuess_def strlen_def c_str_def NUL_def tolower_c_def isupper_c_def
        isalpha_c_def islower_c_def)
  have h3: "\<not> strchr_c (guessedLetters (initRound ''cat'')) (CHR ''a'')"
    by (simp add: strchr_c_def c_str_def initRound_def)
  from applyGuess_new_letter [OF h1 h2 h3] obtain s' msg where
    "applyGuess ''cat'' (CHR ''a'') (initRound ''cat'') = Some (s', msg)"
    "guessed s' = guessed (initRound ''cat'') @ ''a''"
    "length (displayWord s') = length ''cat''"
    "\<forall>i < length ''cat''. displayWord s' ! i =
        (if ''cat'' ! i = CHR ''a'' then ''cat'' ! i else displayWord (initRound ''cat'') ! i)"
    "CHR ''a'' \<in> set ''cat'' \<longrightarrow> incorrectGuesses s' = incorrectGuesses (initRound ''cat'')"
    by blast
  moreover from this(4) have "displayWord s' ! 1 = CHR ''a''" by simp
  ultimately show ?thesis using h1 h2 h3 by auto
qed

text \<open>
  C3. In every state a round passes through from its initial state, \<open>displayWord\<close> has the
  length of the secret word; a position whose character has been guessed shows that
  character and every other position shows the placeholder; and, at a position whose
  character is not the placeholder \<open>_\<close> itself, the pattern shows the character of the
  secret word if and only if that character has been guessed.
\<close>

theorem displayWord_invariant:
  assumes "gameTurns n w m (inp, initRound w, out) = Some (inp', s, out')"
  shows "length (displayWord s) = length w \<and>
         (\<forall>i < length w.
            (w ! i \<in> set (guessed s) \<longrightarrow> displayWord s ! i = w ! i) \<and>
            (w ! i \<notin> set (guessed s) \<longrightarrow> displayWord s ! i = CHR ''_'') \<and>
            (w ! i \<noteq> CHR ''_'' \<longrightarrow> (displayWord s ! i = w ! i) = (w ! i \<in> set (guessed s))))"
proof -
  from gameTurns_inv [OF initRound_inv assms] have inv: "round_inv w s" .
  note d = round_invD [OF inv]
  from d(2) have "\<forall>i < length w.
            (w ! i \<in> set (guessed s) \<longrightarrow> displayWord s ! i = w ! i) \<and>
            (w ! i \<notin> set (guessed s) \<longrightarrow> displayWord s ! i = CHR ''_'') \<and>
            (w ! i \<noteq> CHR ''_'' \<longrightarrow> (displayWord s ! i = w ! i) = (w ! i \<in> set (guessed s)))"
    by auto
  with d(1) show ?thesis by blast
qed

lemma turn_cat_a:
  "gameTurns 1 ''cat'' 6 (''a\<newline>'', initRound ''cat'', []) =
     Some ([], (initRound ''cat'')\<lparr> displayWord := ''_a_'',
                 guessedLetters := (replicate 27 NUL)[0 := CHR ''a''],
                 numGuessedLetters := 1 \<rparr>,
           [PromptGuess, GuessCorrect (CHR ''a'')])"
  by (simp add: gameTurn_def fgets_def INPUT_BUFFER_SIZE_def newline_def eval_nat_numeral
      normalizeGuess_def strlen_def c_str_def NUL_def tolower_c_def isupper_c_def
      isalpha_c_def islower_c_def strchr_c_def initRound_def ALPHABET_SIZE_def
      applyGuess_def store_def reveal_def checkGameOver_def)

theorem displayWord_invariant_witness:
  "gameTurns 1 ''cat'' 6 (''a\<newline>'', initRound ''cat'', []) =
     Some ([], (initRound ''cat'')\<lparr> displayWord := ''_a_'',
                 guessedLetters := (replicate 27 NUL)[0 := CHR ''a''],
                 numGuessedLetters := 1 \<rparr>,
           [PromptGuess, GuessCorrect (CHR ''a'')]) \<and>
   length ''_a_'' = length ''cat'' \<and>
   ''cat'' ! 1 \<in> set ''a'' \<and> ''_a_'' ! 1 = ''cat'' ! 1 \<and>
   ''cat'' ! 0 \<notin> set ''a'' \<and> ''_a_'' ! 0 = CHR ''_''"
  using displayWord_invariant [OF turn_cat_a] turn_cat_a by simp

text \<open>
  For the word \<open>a_b\<close> the initial pattern \<open>___\<close> already shows the character of the word
  at position 1, and nothing has been guessed.
\<close>

theorem displayWord_placeholder_in_word:
  "gameTurns 0 ''a_b'' 6 ([], initRound ''a_b'', []) = Some ([], initRound ''a_b'', []) \<and>
   displayWord (initRound ''a_b'') ! 1 = ''a_b'' ! 1 \<and>
   ''a_b'' ! 1 \<notin> set (guessed (initRound ''a_b''))"
  by (simp add: initRound_def guessed_def c_str_def ALPHABET_SIZE_def)

text \<open>
  C5. In a round in progress, a line that fails the format check or the letter check, or
  that gives a letter already in \<open>guessedLetters\<close>, leaves the variables of the round as
  they were: the iteration prints the message, waits for Enter and the loop goes on from
  the same state with a new prompt. A letter that is in \<open>guessedLetters\<close> stays there in
  every later state of the round, so that entering it again is always answered as a
  duplicate, with no change of the state.
\<close>

theorem rejected_input_keeps_state:
  "(gameOver s = 0 \<and> fgets INPUT_BUFFER_SIZE inp = Some (buf, rest) \<and>
    (normalizeGuess buf = Inl e \<or>
     (\<exists>c. normalizeGuess buf = Inr c \<and> c \<in> set (guessed s)) \<and> e = DuplicateGuessError)
    \<longrightarrow> gameTurn w m (inp, s, out) =
          Some (pauseForUser rest, s, out @ [PromptGuess, Rejected e]) \<and>
        gameLoop w m (inp, s, out) =
          gameLoop w m (pauseForUser rest, s, out @ [PromptGuess, Rejected e])) \<and>
   (round_inv w s0 \<and> c0 \<in> set (guessed s0) \<and>
    gameTurns n w m (inp0, s0, out0) = Some (inp, s, out) \<and>
    fgets INPUT_BUFFER_SIZE inp = Some (buf, rest) \<and> normalizeGuess buf = Inr c0
    \<longrightarrow> gameTurn w m (inp, s, out) =
          Some (pauseForUser rest, s, out @ [PromptGuess, Rejected DuplicateGuessError]))"
proof -
  have t: "gameTurn w m (inp, s, out) = Some (pauseForUser rest, s, out @ [PromptGuess, Rejected e])"
    if "fgets INPUT_BUFFER_SIZE inp = Some (buf, rest)"
      and "normalizeGuess buf = Inl e \<or>
           (\<exists>c. normalizeGuess buf = Inr c \<and> c \<in> set (guessed s)) \<and> e = DuplicateGuessError"
    for e
    using that by (auto simp: gameTurn_def guessed_strchr)
  have l: "gameLoop w m (inp, s, out) =
           gameLoop w m (pauseForUser rest, s, out @ [PromptGuess, Rejected e])"
    if "gameOver s = 0"
      and "gameTurn w m (inp, s, out) = Some (pauseForUser rest, s, out @ [PromptGuess, Rejected e])"
    using that by (subst gameLoop.simps) simp
  have d: "gameTurn w m (inp, s, out) =
             Some (pauseForUser rest, s, out @ [PromptGuess, Rejected DuplicateGuessError])"
    if "round_inv w s0" and "c0 \<in> set (guessed s0)"
      and "gameTurns n w m (inp0, s0, out0) = Some (inp, s, out)"
      and "fgets INPUT_BUFFER_SIZE inp = Some (buf, rest)" and "normalizeGuess buf = Inr c0"
  proof -
    from gameTurns_guessed_mono [OF that(1,2,3)] have "c0 \<in> set (guessed s)" .
    with that(4,5) show ?thesis by (intro t) auto
  qed
  from t l d show ?thesis by blast
qed

theorem rejected_input_keeps_state_witness:
  "gameOver ((initRound ''cat'')\<lparr> displayWord := ''_a_'',
                 guessedLetters := (replicate 27 NUL)[0 := CHR ''a''],
                 numGuessedLetters := 1 \<rparr>) = 0 \<and>
   fgets INPUT_BUFFER_SIZE ''A\<newline>\<newline>'' = Some (''A\<newline>'', ''\<newline>'') \<and>
   normalizeGuess ''A\<newline>'' = Inr (CHR ''a'') \<and>
   CHR ''a'' \<in> set (guessed ((initRound ''cat'')\<lparr> displayWord := ''_a_'',
                 guessedLetters := (replicate 27 NUL)[0 := CHR ''a''],
                 numGuessedLetters := 1 \<rparr>)) \<and>
   round_inv ''cat'' ((initRound ''cat'')\<lparr> displayWord := ''_a_'',
                 guessedLetters := (replicate 27 NUL)[0 := CHR ''a''],
                 numGuessedLetters := 1 \<rparr>) \<and>
   gameTurn ''cat'' 6 (''A\<newline>\<newline>'', (initRound ''cat'')\<lparr> displayWord := ''_a_'',
                 guessedLetters := (replicate 27 NUL)[0 := CHR ''a''],
                 numGuessedLetters := 1 \<rparr>, []) =
     Some (pauseForUser ''\<newline>'', (initRound ''cat'')\<lparr> displayWord := ''_a_'',
                 guessedLetters := (replicate 27 NUL)[0 := CHR ''a''],
                 numGuessedLetters := 1 \<rparr>, [PromptGuess, Rejected DuplicateGuessError]) \<and>
   gameLoop ''cat'' 6 (''A\<newline>\<newline>'', (initRound ''cat'')\<lparr> displayWord := ''_a_'',
                 guessedLetters := (replicate 27 NUL)[0 := CHR ''a''],
                 numGuessedLetters := 1 \<rparr>, []) =
     gameLoop ''cat'' 6 (pauseForUser ''\<newline>'', (initRound ''cat'')\<lparr> displayWord := ''_a_'',
                 guessedLetters := (replicate 27 NUL)[0 := CHR ''a''],
                 numGuessedLetters := 1 \<rparr>, [PromptGuess, Rejected DuplicateGuessError])"
proof -
  let ?S = "(initRound ''cat'')\<lparr> displayWord := ''_a_'',
                 guessedLetters := (replicate 27 NUL)[0 := CHR ''a''],
                 numGuessedLetters := 1 \<rparr>"
  have f: "fgets INPUT_BUFFER_SIZE ''A\<newline>\<newline>'' = Some (''A\<newline>'', ''\<newline>'')"
    by (simp add: fgets_def INPUT_BUFFER_SIZE_def newline_def eval_nat_numeral)
  have l: "tolower_c (CHR ''A'') = CHR ''a''"
    by code_simp
  have n: "normalizeGuess ''A\<newline>'' = Inr (CHR ''a'')"
    by (simp add: normalizeGuess_def strlen_def c_str_def NUL_def l isalpha_c_def islower_c_def)
  have g: "gameOver ?S = 0" by (simp add: initRound_def)
  have m: "CHR ''a'' \<in> set (guessed ?S)"
    by (simp add: guessed_def c_str_def NUL_def eval_nat_numeral)
  have r: "round_inv ''cat'' ?S"
    by (rule gameTurns_inv [OF initRound_inv turn_cat_a])
  have t0: "gameTurns 0 ''cat'' 6 (''A\<newline>\<newline>'', ?S, []) = Some (''A\<newline>\<newline>'', ?S, [])"
    by simp
  have h: "normalizeGuess ''A\<newline>'' = Inl DuplicateGuessError \<or>
           (\<exists>c. normalizeGuess ''A\<newline>'' = Inr c \<and> c \<in> set (guessed ?S)) \<and>
           DuplicateGuessError = DuplicateGuessError"
    using n m by (intro disjI2 conjI exI [of _ "CHR ''a''"] refl)
  note T = rejected_input_keeps_state [of ?S "''A\<newline>\<newline>''" "''A\<newline>''" "''\<newline>''"
      DuplicateGuessError "''cat''" 6 "[]" ?S "CHR ''a''" 0 "''A\<newline>\<newline>''" "[]"]
  from T [THEN conjunct1, THEN mp, OF conjI [OF g conjI [OF f h]]]
  have c1: "gameTurn ''cat'' 6 (''A\<newline>\<newline>'', ?S, []) =
              Some (pauseForUser ''\<newline>'', ?S, [] @ [PromptGuess, Rejected DuplicateGuessError])"
    and c2: "gameLoop ''cat'' 6 (''A\<newline>\<newline>'', ?S, []) =
              gameLoop ''cat'' 6 (pauseForUser ''\<newline>'', ?S,
                                  [] @ [PromptGuess, Rejected DuplicateGuessError])"
    by (rule conjunct1, rule conjunct2)
  from T [THEN conjunct2, THEN mp, OF conjI [OF r conjI [OF m conjI [OF t0 conjI [OF f n]]]]]
  have c3: "gameTurn ''cat'' 6 (''A\<newline>\<newline>'', ?S, []) =
              Some (pauseForUser ''\<newline>'', ?S, [] @ [PromptGuess, Rejected DuplicateGuessError])" .
  from c1 c2 have e: "gameTurn ''cat'' 6 (''A\<newline>\<newline>'', ?S, []) =
              Some (pauseForUser ''\<newline>'', ?S, [PromptGuess, Rejected DuplicateGuessError]) \<and>
            gameLoop ''cat'' 6 (''A\<newline>\<newline>'', ?S, []) =
              gameLoop ''cat'' 6 (pauseForUser ''\<newline>'', ?S,
                                  [PromptGuess, Rejected DuplicateGuessError])"
    by (simp only: append_Nil)
  from g f n m r e c3 show ?thesis by (intro conjI) (simp_all only:)
qed

text \<open>
  C9. When the secret word holds a character that is not a lower-case ASCII letter, no
  state of the round has \<open>playerWon\<close> set: the pattern keeps a placeholder in every state
  the loop passes through, the loop ends with \<open>playerWon = 0\<close>, and the round prints the
  loss message.
\<close>

theorem never_won_with_other_characters:
  assumes "c \<in> set w" and "\<not> islower_c c"
  shows "(\<forall>n inp out inp' s out'.
            gameTurns n w m (inp, initRound w, out) = Some (inp', s, out') \<longrightarrow>
              playerWon s = 0 \<and> CHR ''_'' \<in> set (displayWord s)) \<and>
         (\<exists>inp' s out'. gameLoop w m (inp, initRound w, out) = Some (inp', s, out') \<and>
              playerWon s = 0 \<and> CHR ''_'' \<in> set (displayWord s) \<and>
              playRound w m inp out = Some (inp', s, out' @ [SorryOutOfGuesses w]))"
proof -
  let ?P = "\<lambda>s. round_inv w s \<and> playerWon s = 0"
  have init: "?P (initRound w)" by (simp add: initRound_inv) (simp add: initRound_def)
  have step: "?P s'" if "?P s" and "gameTurn w m (inp, s, out) = Some (inp', s', out')"
    for inp s out inp' s' out'
    using that gameTurn_inv turn_keeps_not_won [OF _ _ assms] by blast
  have a: "playerWon s = 0 \<and> CHR ''_'' \<in> set (displayWord s)"
    if "gameTurns n w m (inp, initRound w, out) = Some (inp', s, out')" for n inp out inp' s out'
  proof -
    have "?P s" by (rule gameTurns_invariant [where P = ?P, OF init step that])
    with placeholder_kept [OF _ assms] show ?thesis by blast
  qed
  from gameLoop_no_fault [OF initRound_inv, of w m inp out]
  obtain inp' s out' where l: "gameLoop w m (inp, initRound w, out) = Some (inp', s, out')"
    by (metis prod_cases3)
  have "?P s \<and> gameOver s \<noteq> 0" by (rule gameLoop_invariant [where P = ?P, OF init step l])
  with placeholder_kept [OF _ assms]
  have b: "playerWon s = 0 \<and> CHR ''_'' \<in> set (displayWord s)" by blast
  with l have "playRound w m inp out = Some (inp', s, out' @ [SorryOutOfGuesses w])"
    by (simp add: playRound_def)
  with a l b show ?thesis by blast
qed

lemma turn_upper_a:
  "gameTurns 1 ''A'' 6 (''a\<newline>'', initRound ''A'', []) =
     Some ([], (initRound ''A'')\<lparr> incorrectGuesses := 1,
                 guessedLetters := (replicate 27 NUL)[0 := CHR ''a''],
                 numGuessedLetters := 1 \<rparr>,
           [PromptGuess, GuessIncorrect (CHR ''a'')])"
  by (simp add: gameTurn_def fgets_def INPUT_BUFFER_SIZE_def newline_def eval_nat_numeral
      normalizeGuess_def strlen_def c_str_def NUL_def tolower_c_def isupper_c_def
      isalpha_c_def islower_c_def strchr_c_def initRound_def ALPHABET_SIZE_def
      applyGuess_def store_def reveal_def checkGameOver_def)

theorem never_won_with_other_characters_witness:
  "CHR ''A'' \<in> set ''A'' \<and> \<not> islower_c (CHR ''A'') \<and>
   gameTurns 1 ''A'' 6 (''a\<newline>'', initRound ''A'', []) =
     Some ([], (initRound ''A'')\<lparr> incorrectGuesses := 1,
                 guessedLetters := (replicate 27 NUL)[0 := CHR ''a''],
                 numGuessedLetters := 1 \<rparr>,
           [PromptGuess, GuessIncorrect (CHR ''a'')]) \<and>
   playerWon ((initRound ''A'')\<lparr> incorrectGuesses := 1,
                 guessedLetters := (replicate 27 NUL)[0 := CHR ''a''],
                 numGuessedLetters := 1 \<rparr>) = 0 \<and>
   CHR ''_'' \<in> set (displayWord ((initRound ''A'')\<lparr> incorrectGuesses := 1,
                 guessedLetters := (replicate 27 NUL)[0 := CHR ''a''],
                 numGuessedLetters := 1 \<rparr>))"
proof -
  have h1: "CHR ''A'' \<in> set ''A''" by simp
  have h2: "\<not> islower_c (CHR ''A'')" by (simp add: islower_c_def)
  from never_won_with_other_characters [OF h1 h2, of 6, THEN conjunct1, rule_format, OF turn_upper_a]
    h1 h2 turn_upper_a
  show ?thesis by simp
qed

text \<open>
  C10. In every state a round passes through, \<open>guessedLetters\<close> is a buffer of 27 cells
  holding a NUL-terminated string of pairwise distinct lower-case ASCII letters, of
  length \<open>numGuessedLetters\<close>, at most 26; the string is the sequence of the letters
  scored so far, in the order of the guesses; and no iteration of the loop writes outside
  the buffer (the loop never yields the out-of-bounds value \<open>None\<close>), on any input.
\<close>

theorem guessedLetters_in_bounds:
  "(\<exists>inp' s ms. gameTurns n w m (inp, initRound w, out) = Some (inp', s, out @ ms) \<and>
      length (guessedLetters s) = 27 \<and>
      numGuessedLetters s \<le> 26 \<and>
      guessedLetters s ! numGuessedLetters s = NUL \<and>
      strlen (guessedLetters s) = numGuessedLetters s \<and>
      c_str (guessedLetters s) = take (numGuessedLetters s) (guessedLetters s) \<and>
      c_str (guessedLetters s) = scoredLetters ms \<and>
      distinct (c_str (guessedLetters s)) \<and>
      (\<forall>c \<in> set (c_str (guessedLetters s)). islower_c c)) \<and>
   (\<exists>inp' s ms. gameLoop w m (inp, initRound w, out) = Some (inp', s, out @ ms) \<and>
      strlen (guessedLetters s) = numGuessedLetters s \<and> numGuessedLetters s \<le> 26 \<and>
      c_str (guessedLetters s) = scoredLetters ms)"
proof -
  have p: "length (guessedLetters s) = 27 \<and>
      numGuessedLetters s \<le> 26 \<and>
      guessedLetters s ! numGuessedLetters s = NUL \<and>
      strlen (guessedLetters s) = numGuessedLetters s \<and>
      c_str (guessedLetters s) = take (numGuessedLetters s) (guessedLetters s) \<and>
      distinct (c_str (guessedLetters s)) \<and>
      (\<forall>c \<in> set (c_str (guessedLetters s)). islower_c c)" if "round_inv w s" for s
  proof -
    note d = round_invD [OF that]
    from d(3,4) have l: "length (guessedLetters s) = 27" "numGuessedLetters s \<le> 26"
      by (simp_all add: ALPHABET_SIZE_def)
    from d(6) have c: "c_str (guessedLetters s) = take (numGuessedLetters s) (guessedLetters s)"
      by (simp add: guessed_def)
    with l have "strlen (guessedLetters s) = numGuessedLetters s" by (simp add: strlen_def)
    with l c d(5,7,8) show ?thesis by (simp add: guessed_def)
  qed
  from gameTurns_no_fault [OF initRound_inv, where n = n and m = m and inp = inp and out = out and w = w]
  obtain inp1 s1 out1 where t: "gameTurns n w m (inp, initRound w, out) = Some (inp1, s1, out1)"
    by (metis prod_cases3)
  from gameTurns_inv [OF initRound_inv t] have i1: "round_inv w s1" .
  from gameTurns_scored [OF initRound_inv t] obtain ms1
    where o1: "out1 = out @ ms1" and "guessed s1 = scoredLetters ms1"
    by (auto simp: guessed_initRound)
  then have g1: "c_str (guessedLetters s1) = scoredLetters ms1" by (simp add: guessed_def)
  from gameLoop_no_fault [OF initRound_inv, of w m inp out]
  obtain inp2 s2 out2 where l: "gameLoop w m (inp, initRound w, out) = Some (inp2, s2, out2)"
    by (metis prod_cases3)
  from gameLoop_inv [OF initRound_inv l] have i2: "round_inv w s2" by simp
  from gameLoop_scored [OF initRound_inv l] obtain ms2
    where o2: "out2 = out @ ms2" and "guessed s2 = scoredLetters ms2"
    by (auto simp: guessed_initRound)
  then have g2: "c_str (guessedLetters s2) = scoredLetters ms2" by (simp add: guessed_def)
  from t [unfolded o1] p [OF i1] g1 l [unfolded o2] p [OF i2] g2 show ?thesis by blast
qed

theorem guessedLetters_in_bounds_witness:
  "gameTurns 1 ''cat'' 6 (''a\<newline>'', initRound ''cat'', []) =
     Some ([], (initRound ''cat'')\<lparr> displayWord := ''_a_'',
                 guessedLetters := (replicate 27 NUL)[0 := CHR ''a''],
                 numGuessedLetters := 1 \<rparr>,
           [PromptGuess, GuessCorrect (CHR ''a'')]) \<and>
   c_str ((replicate 27 NUL)[0 := CHR ''a'']) = ''a'' \<and>
   scoredLetters [PromptGuess, GuessCorrect (CHR ''a'')] = ''a'' \<and>
   islower_c (CHR ''a'') \<and>
   (\<exists>inp' s ms. gameLoop ''cat'' 6 (''a\<newline>'', initRound ''cat'', []) = Some (inp', s, ms) \<and>
      strlen (guessedLetters s) = numGuessedLetters s \<and> numGuessedLetters s \<le> 26 \<and>
      c_str (guessedLetters s) = scoredLetters ms)"
proof -
  have c: "c_str ((replicate 27 NUL)[0 := CHR ''a'']) = ''a''"
    by (simp add: c_str_def NUL_def eval_nat_numeral)
  from guessedLetters_in_bounds [of 1 "''cat''" 6 "''a\<newline>''" "[]"]
  have "\<forall>c \<in> set (c_str ((replicate 27 NUL)[0 := CHR ''a''])). islower_c c"
    and g: "\<exists>inp' s ms. gameLoop ''cat'' 6 (''a\<newline>'', initRound ''cat'', []) = Some (inp', s, ms) \<and>
      strlen (guessedLetters s) = numGuessedLetters s \<and> numGuessedLetters s \<le> 26 \<and>
      c_str (guessedLetters s) = scoredLetters ms"
    unfolding turn_cat_a by simp_all
  with c have "islower_c (CHR ''a'')" by simp
  with c g turn_cat_a show ?thesis by simp
qed

text \<open>
  C1. After a new valid letter has been scored, the loop body decides the state of the
  round, the loss first: when \<open>incorrectGuesses\<close> equals \<open>maxIncorrectGuesses\<close> the round
  is lost (\<open>gameOver = 1\<close>, \<open>playerWon = 0\<close>); otherwise, when \<open>displayWord\<close> holds no
  placeholder, it is won (\<open>gameOver = 1\<close>, \<open>playerWon = 1\<close>); otherwise it stays in
  progress. In particular, entering as many distinct letters as the budget allows, none
  of them in the (non-empty) secret word, ends the round as lost exactly at the last of
  them: after \<open>j\<close> of them the round has \<open>j\<close> mistakes and is over if and only if \<open>j\<close> is
  the budget.
\<close>

theorem round_transition:
  "(round_inv w s \<and> gameOver s = 0 \<and> fgets INPUT_BUFFER_SIZE inp = Some (buf, rest) \<and>
    normalizeGuess buf = Inr c \<and> \<not> strchr_c (guessedLetters s) c \<longrightarrow>
      (\<exists>s1 msg s2. applyGuess w c s = Some (s1, msg) \<and>
         gameTurn w m (inp, s, out) = Some (rest, s2, out @ [PromptGuess, msg]) \<and>
         (incorrectGuesses s1 = m \<longrightarrow> gameOver s2 = 1 \<and> playerWon s2 = 0) \<and>
         (incorrectGuesses s1 \<noteq> m \<and> CHR ''_'' \<notin> set (displayWord s1) \<longrightarrow>
            gameOver s2 = 1 \<and> playerWon s2 = 1) \<and>
         (incorrectGuesses s1 \<noteq> m \<and> CHR ''_'' \<in> set (displayWord s1) \<longrightarrow>
            gameOver s2 = 0 \<and> s2 = s1))) \<and>
   (w \<noteq> [] \<and> cs \<noteq> [] \<and> distinct cs \<and> (\<forall>x \<in> set cs. islower_c x \<and> x \<notin> set w) \<and>
    k = int (length cs) \<and> j \<le> length cs \<longrightarrow>
      (\<exists>s' out'. gameTurns j w k (guessLines cs @ inp0, initRound w, out0) =
                    Some (guessLines (drop j cs) @ inp0, s', out') \<and>
         incorrectGuesses s' = int j \<and> playerWon s' = 0 \<and>
         (gameOver s' = 1) = (j = length cs) \<and> (gameOver s' = 0) = (j < length cs)))"
proof (intro conjI impI)
  assume h: "round_inv w s \<and> gameOver s = 0 \<and> fgets INPUT_BUFFER_SIZE inp = Some (buf, rest) \<and>
    normalizeGuess buf = Inr c \<and> \<not> strchr_c (guessedLetters s) c"
  then have inv: "round_inv w s" and go: "gameOver s = 0"
    and f: "fgets INPUT_BUFFER_SIZE inp = Some (buf, rest)"
    and n: "normalizeGuess buf = Inr c" and new: "\<not> strchr_c (guessedLetters s) c"
    by simp_all
  from accepted_turn [OF inv f n new, where m = m and out = out]
  obtain s1 msg where a: "applyGuess w c s = Some (s1, msg)" and r: "round_inv w s1"
    and t: "gameTurn w m (inp, s, out) = Some (rest, checkGameOver m s1, out @ [PromptGuess, msg])"
    and g1: "gameOver s1 = gameOver s"
    by blast
  note cc = checkGameOver_cases [OF r, of m]
  have 3: "incorrectGuesses s1 \<noteq> m \<and> CHR ''_'' \<in> set (displayWord s1) \<longrightarrow>
            gameOver (checkGameOver m s1) = 0 \<and> checkGameOver m s1 = s1"
    using cc(3) g1 go by simp
  from a t cc(1,2) 3
  show "\<exists>s1 msg s2. applyGuess w c s = Some (s1, msg) \<and>
         gameTurn w m (inp, s, out) = Some (rest, s2, out @ [PromptGuess, msg]) \<and>
         (incorrectGuesses s1 = m \<longrightarrow> gameOver s2 = 1 \<and> playerWon s2 = 0) \<and>
         (incorrectGuesses s1 \<noteq> m \<and> CHR ''_'' \<notin> set (displayWord s1) \<longrightarrow>
            gameOver s2 = 1 \<and> playerWon s2 = 1) \<and>
         (incorrectGuesses s1 \<noteq> m \<and> CHR ''_'' \<in> set (displayWord s1) \<longrightarrow>
            gameOver s2 = 0 \<and> s2 = s1)"
    by blast
next
  assume h: "w \<noteq> [] \<and> cs \<noteq> [] \<and> distinct cs \<and> (\<forall>x \<in> set cs. islower_c x \<and> x \<notin> set w) \<and>
    k = int (length cs) \<and> j \<le> length cs"
  then have w: "w \<noteq> []" and cs: "cs \<noteq> []" and d: "distinct cs"
    and low: "\<forall>x \<in> set cs. islower_c x \<and> x \<notin> set w"
    and k: "k = int (length cs)" and j: "j \<le> length cs"
    by simp_all
  let ?s0 = "initRound w"
  have g0: "guessed ?s0 = []" by (simp add: guessed_def initRound_def c_str_def ALPHABET_SIZE_def)
  have i0: "incorrectGuesses ?s0 = 0" and go0: "gameOver ?s0 = 0" by (simp_all add: initRound_def)
  have lj: "length (take j cs) = j" using j by simp
  have a5: "distinct (take j cs)" using d by simp
  have a6: "\<forall>x \<in> set (take j cs). islower_c x \<and> x \<notin> set w \<and> x \<notin> set (guessed ?s0)"
    using low g0 by (auto dest: in_set_takeD)
  have a7: "incorrectGuesses ?s0 + int (length (take j cs)) \<le> k" using i0 lj j k by simp
  have a8: "incorrectGuesses ?s0 < k" using i0 k cs by simp
  have a4: "set (guessed ?s0) \<inter> set w = {}" using g0 by simp
  from misses_run [OF initRound_inv go0 w a4 a5 a6 a7 a8,
      where inp = "guessLines (drop j cs) @ inp0" and out = out0]
  obtain s' out' where
    t: "gameTurns (length (take j cs)) w k
          (guessLines (take j cs) @ guessLines (drop j cs) @ inp0, ?s0, out0) =
        Some (guessLines (drop j cs) @ inp0, s', out')"
    and i: "incorrectGuesses s' = incorrectGuesses ?s0 + int (length (take j cs))"
    and g: "gameOver s' = (if incorrectGuesses s' = k then 1 else 0)"
    and p: "playerWon s' = 0"
    by blast
  have "guessLines (take j cs) @ guessLines (drop j cs) @ inp0 = guessLines cs @ inp0"
    using guessLines_append [of "take j cs" "drop j cs"] by simp
  with t lj have t': "gameTurns j w k (guessLines cs @ inp0, ?s0, out0) =
        Some (guessLines (drop j cs) @ inp0, s', out')"
    by simp
  from i i0 lj have i': "incorrectGuesses s' = int j" by simp
  from g i' k j have g': "(gameOver s' = 1) = (j = length cs)" "(gameOver s' = 0) = (j < length cs)"
    by auto
  from t' i' p g'
  show "\<exists>s' out'. gameTurns j w k (guessLines cs @ inp0, initRound w, out0) =
                    Some (guessLines (drop j cs) @ inp0, s', out') \<and>
         incorrectGuesses s' = int j \<and> playerWon s' = 0 \<and>
         (gameOver s' = 1) = (j = length cs) \<and> (gameOver s' = 0) = (j < length cs)"
    by blast
qed

theorem round_transition_witness:
  "round_inv ''cat'' (initRound ''cat'') \<and> gameOver (initRound ''cat'') = 0 \<and>
   fgets INPUT_BUFFER_SIZE ''a\<newline>'' = Some (''a\<newline>'', []) \<and>
   normalizeGuess ''a\<newline>'' = Inr (CHR ''a'') \<and>
   \<not> strchr_c (guessedLetters (initRound ''cat'')) (CHR ''a'') \<and>
   (\<exists>s1 msg s2. applyGuess ''cat'' (CHR ''a'') (initRound ''cat'') = Some (s1, msg) \<and>
      gameTurn ''cat'' 6 (''a\<newline>'', initRound ''cat'', []) = Some ([], s2, [PromptGuess, msg])) \<and>
   ''dog'' \<noteq> [] \<and> ''xy'' \<noteq> [] \<and> distinct ''xy'' \<and>
   islower_c (CHR ''x'') \<and> CHR ''x'' \<notin> set ''dog'' \<and>
   islower_c (CHR ''y'') \<and> CHR ''y'' \<notin> set ''dog'' \<and>
   (\<exists>s' out'. gameTurns 1 ''dog'' 2 (''x\<newline>y\<newline>z\<newline>'', initRound ''dog'', []) =
                  Some (''y\<newline>z\<newline>'', s', out') \<and>
      incorrectGuesses s' = 1 \<and> playerWon s' = 0 \<and> gameOver s' = 0) \<and>
   (\<exists>s' out'. gameTurns 2 ''dog'' 2 (''x\<newline>y\<newline>z\<newline>'', initRound ''dog'', []) =
                  Some (''z\<newline>'', s', out') \<and>
      incorrectGuesses s' = 2 \<and> playerWon s' = 0 \<and> gameOver s' = 1)"
proof -
  have h1: "round_inv ''cat'' (initRound ''cat'')" by (rule initRound_inv)
  have h2: "gameOver (initRound ''cat'') = 0" by (simp add: initRound_def)
  have h3: "fgets INPUT_BUFFER_SIZE ''a\<newline>'' = Some (''a\<newline>'', [])"
    by (simp add: fgets_def INPUT_BUFFER_SIZE_def newline_def eval_nat_numeral)
  have h4: "normalizeGuess ''a\<newline>'' = Inr (CHR ''a'')"
    by (simp add: normalizeGuess_def strlen_def c_str_def NUL_def tolower_c_def isupper_c_def
        isalpha_c_def islower_c_def)
  have h5: "\<not> strchr_c (guessedLetters (initRound ''cat'')) (CHR ''a'')"
    by (simp add: strchr_c_def c_str_def initRound_def)
  have l: "islower_c (CHR ''x'')" "islower_c (CHR ''y'')" by (simp_all add: islower_c_def)
  have gl: "guessLines ''xy'' = ''x\<newline>y\<newline>''" by (simp add: guessLines_def newline_def)
  note T = round_transition [where w = "''cat''" and s = "initRound ''cat''" and inp = "''a\<newline>''"
      and buf = "''a\<newline>''" and rest = "[]" and c = "CHR ''a''" and m = 6 and out = "[]"]
  from T [THEN conjunct1, THEN mp, OF conjI [OF h1 conjI [OF h2 conjI [OF h3 conjI [OF h4 h5]]]]]
  have a: "\<exists>s1 msg s2. applyGuess ''cat'' (CHR ''a'') (initRound ''cat'') = Some (s1, msg) \<and>
      gameTurn ''cat'' 6 (''a\<newline>'', initRound ''cat'', []) = Some ([], s2, [PromptGuess, msg])"
    by auto
  have hb: "''dog'' \<noteq> [] \<and> ''xy'' \<noteq> [] \<and> distinct ''xy'' \<and>
            (\<forall>x \<in> set ''xy''. islower_c x \<and> x \<notin> set ''dog'') \<and>
            (2::int) = int (length ''xy'') \<and> j \<le> length ''xy''" if "j \<le> 2" for j
    using l that by simp
  note U = round_transition [where w = "''dog''" and cs = "''xy''" and k = 2
      and ?inp0.0 = "''z\<newline>''" and ?out0.0 = "[]"]
  from U [where j = 1, THEN conjunct2, THEN mp, OF hb]
  have b1: "\<exists>s' out'. gameTurns 1 ''dog'' 2 (''x\<newline>y\<newline>z\<newline>'', initRound ''dog'', []) =
                  Some (''y\<newline>z\<newline>'', s', out') \<and>
      incorrectGuesses s' = 1 \<and> playerWon s' = 0 \<and> gameOver s' = 0"
    by (auto simp add: gl guessLines_def newline_def simp del: gameTurns.simps)
  from U [where j = 2, THEN conjunct2, THEN mp, OF hb]
  have b2: "\<exists>s' out'. gameTurns 2 ''dog'' 2 (''x\<newline>y\<newline>z\<newline>'', initRound ''dog'', []) =
                  Some (''z\<newline>'', s', out') \<and>
      incorrectGuesses s' = 2 \<and> playerWon s' = 0 \<and> gameOver s' = 1"
    by (auto simp add: gl guessLines_def newline_def simp del: gameTurns.simps)
  from h1 h2 h3 h4 h5 a l b1 b2 show ?thesis by (simp del: gameTurns.simps)
qed

text \<open>
  C8. In the draft game \<open>playerWon\<close> starts at 0 and no iteration of the loop changes it;
  so on every input the game ends with \<open>playerWon = 0\<close>, prints the loss message and never
  the win message, also when every letter of the secret word has been revealed.
\<close>

theorem draft_never_wins:
  "playerWon (initRound w) = 0 \<and>
   (\<forall>inp s out inp' s' out'.
      draft_gameTurn w (inp, s, out) = Some (inp', s', out') \<longrightarrow> playerWon s' = playerWon s) \<and>
   (\<exists>inp' s out. draft_game w inp = Some (inp', s, out @ [SorryOutOfGuesses w]) \<and>
      playerWon s = 0 \<and> (\<forall>x. Congratulations x \<notin> set out))"
proof -
  have a: "playerWon (initRound w) = 0" by (simp add: initRound_def)
  have b: "\<forall>inp s out inp' s' out'.
      draft_gameTurn w (inp, s, out) = Some (inp', s', out') \<longrightarrow> playerWon s' = playerWon s"
    using draft_gameTurn_playerWon by blast
  from draft_gameLoop_result [OF initRound_inv a, of "[]" inp]
  obtain inp' s out where l: "draft_gameLoop w (inp, initRound w, []) = Some (inp', s, out)"
    and p: "playerWon s = 0" and o: "\<forall>x. Congratulations x \<notin> set out"
    by auto
  from l p have "draft_game w inp = Some (inp', s, out @ [SorryOutOfGuesses w])"
    by (simp add: draft_game_def)
  with a b p o show ?thesis by blast
qed

lemma draft_game_cat:
  "draft_game ''cat'' ''c\<newline>a\<newline>t\<newline>'' =
     Some ([], (initRound ''cat'')\<lparr> displayWord := ''cat'',
                 guessedLetters := (replicate 27 NUL)[0 := CHR ''c'', 1 := CHR ''a'', 2 := CHR ''t''],
                 numGuessedLetters := 3, gameOver := 1 \<rparr>,
           [PromptGuess, GuessCorrect (CHR ''c''), PromptGuess, GuessCorrect (CHR ''a''),
            PromptGuess, GuessCorrect (CHR ''t''), PromptGuess, EofDetected] @
           [SorryOutOfGuesses ''cat''])"
  by (simp add: draft_game_def draft_gameLoop.simps draft_gameTurn_def
      fgets_def INPUT_BUFFER_SIZE_def newline_def eval_nat_numeral
      normalizeGuess_def strlen_def c_str_def NUL_def tolower_c_def isupper_c_def
      isalpha_c_def islower_c_def strchr_c_def initRound_def ALPHABET_SIZE_def
      applyGuess_def store_def reveal_def MAX_INCORRECT_GUESSES_def)

theorem draft_never_wins_witness:
  "draft_game ''cat'' ''c\<newline>a\<newline>t\<newline>'' =
     Some ([], (initRound ''cat'')\<lparr> displayWord := ''cat'',
                 guessedLetters := (replicate 27 NUL)[0 := CHR ''c'', 1 := CHR ''a'', 2 := CHR ''t''],
                 numGuessedLetters := 3, gameOver := 1 \<rparr>,
           [PromptGuess, GuessCorrect (CHR ''c''), PromptGuess, GuessCorrect (CHR ''a''),
            PromptGuess, GuessCorrect (CHR ''t''), PromptGuess, EofDetected] @
           [SorryOutOfGuesses ''cat'']) \<and>
   displayWord ((initRound ''cat'')\<lparr> displayWord := ''cat'',
                 guessedLetters := (replicate 27 NUL)[0 := CHR ''c'', 1 := CHR ''a'', 2 := CHR ''t''],
                 numGuessedLetters := 3, gameOver := 1 \<rparr>) = ''cat'' \<and>
   playerWon ((initRound ''cat'')\<lparr> displayWord := ''cat'',
                 guessedLetters := (replicate 27 NUL)[0 := CHR ''c'', 1 := CHR ''a'', 2 := CHR ''t''],
                 numGuessedLetters := 3, gameOver := 1 \<rparr>) = 0"
proof -
  from draft_never_wins [of "''cat''" "''c\<newline>a\<newline>t\<newline>''"]
  obtain inp' s out where
    "draft_game ''cat'' ''c\<newline>a\<newline>t\<newline>'' = Some (inp', s, out @ [SorryOutOfGuesses ''cat''])"
    and "playerWon s = 0"
    by blast
  with draft_game_cat
  have "playerWon ((initRound ''cat'')\<lparr> displayWord := ''cat'',
                 guessedLetters := (replicate 27 NUL)[0 := CHR ''c'', 1 := CHR ''a'', 2 := CHR ''t''],
                 numGuessedLetters := 3, gameOver := 1 \<rparr>) = 0"
    by simp
  with draft_game_cat show ?thesis by simp
qed

text \<open>
  C7. When the input ends during the guess loop, the loop stops at once: no guess is
  applied and only \<open>gameOver\<close> is set. \<open>playerWon\<close> is still 0, so the round prints the
  loss message; the answer to "Play Again?" is then read at end of input too, which
  sets \<open>playAgain\<close> to \<open>n\<close>, and the session ends without another round. After a round,
  the session repeats exactly when the answer could be read and begins with \<open>y\<close> or
  \<open>Y\<close>; at end of input or on any other answer it ends.
\<close>

theorem end_of_input_ends_session:
  "(gameOver s = 0 \<longrightarrow>
      gameLoop w m ([], s, out) = Some ([], s\<lparr> gameOver := 1 \<rparr>, out @ [PromptGuess, EofDetected])) \<and>
   (fgets INPUT_BUFFER_SIZE inp1 = Some (dbuf, rest1) \<and>
    playRound (wordList ! (rnd k mod length wordList)) (fst (selectDifficulty dbuf))
      (pauseForUser rest1) (out1 @ [PromptDifficulty, snd (selectDifficulty dbuf)]) =
        Some (inp', s', out') \<and>
    EofDetected \<notin> set out1 \<and> EofDetected \<in> set out' \<longrightarrow>
      playerWon s' = 0 \<and>
      last out' = SorryOutOfGuesses (wordList ! (rnd k mod length wordList)) \<and>
      session wordList rnd k inp1 out1 = Some ([], out' @ [PromptPlayAgain])) \<and>
   (sessionBody wordList (rnd k) inp1 out1 = Some (playAgain, inp2, out2) \<longrightarrow>
      session wordList rnd k inp1 out1 =
        (if playAgain = CHR ''y'' then session wordList rnd (Suc k) inp2 out2
         else Some (inp2, out2))) \<and>
   ((fst (readPlayAgain inp3) = CHR ''y'') =
      (\<exists>resp rest. fgets INPUT_BUFFER_SIZE inp3 = Some (resp, rest) \<and>
         (hd resp = CHR ''y'' \<or> hd resp = CHR ''Y'')))"
proof -
  let ?w = "wordList ! (rnd k mod length wordList)"
  let ?out0 = "out1 @ [PromptDifficulty, snd (selectDifficulty dbuf)]"
  have A: "gameOver s = 0 \<longrightarrow>
      gameLoop w m ([], s, out) = Some ([], s\<lparr> gameOver := 1 \<rparr>, out @ [PromptGuess, EofDetected])"
    by (simp add: gameLoop_at_eof)
  have B: "fgets INPUT_BUFFER_SIZE inp1 = Some (dbuf, rest1) \<and>
    playRound ?w (fst (selectDifficulty dbuf)) (pauseForUser rest1) ?out0 = Some (inp', s', out') \<and>
    EofDetected \<notin> set out1 \<and> EofDetected \<in> set out' \<longrightarrow>
      playerWon s' = 0 \<and> last out' = SorryOutOfGuesses ?w \<and>
      session wordList rnd k inp1 out1 = Some ([], out' @ [PromptPlayAgain])"
  proof
    assume h: "fgets INPUT_BUFFER_SIZE inp1 = Some (dbuf, rest1) \<and>
      playRound ?w (fst (selectDifficulty dbuf)) (pauseForUser rest1) ?out0 = Some (inp', s', out') \<and>
      EofDetected \<notin> set out1 \<and> EofDetected \<in> set out'"
    then have f: "fgets INPUT_BUFFER_SIZE inp1 = Some (dbuf, rest1)"
      and p: "playRound ?w (fst (selectDifficulty dbuf)) (pauseForUser rest1) ?out0 =
                Some (inp', s', out')"
      and e1: "EofDetected \<notin> set out1" and e2: "EofDetected \<in> set out'"
      by simp_all
    from p obtain outL where
      l: "gameLoop ?w (fst (selectDifficulty dbuf)) (pauseForUser rest1, initRound ?w, ?out0) =
            Some (inp', s', outL)"
      and o: "out' = outL @ [if playerWon s' \<noteq> 0 then Congratulations ?w else SorryOutOfGuesses ?w]"
      by (auto simp: playRound_def split: option.splits)
    from e1 have n0: "EofDetected \<notin> set ?out0" using selectDifficulty_message [of dbuf] by auto
    from e2 o have nL: "EofDetected \<in> set outL" by (auto split: if_splits)
    from gameLoop_eof [OF initRound_inv l n0 nL] have i: "inp' = []" and w0: "playerWon s' = 0"
      by simp_all
    from o w0 have la: "last out' = SorryOutOfGuesses ?w" by simp
    have r: "readPlayAgain [] = (CHR ''n'', [])" by (simp add: readPlayAgain_def fgets_def)
    obtain M dm where sd: "selectDifficulty dbuf = (M, dm)" by (cases "selectDifficulty dbuf")
    from p sd i have p': "playRound ?w M (pauseForUser rest1) (out1 @ [PromptDifficulty, dm]) =
                            Some ([], s', out')"
      by simp
    have b: "sessionBody wordList (rnd k) inp1 out1 = Some (CHR ''n'', [], out' @ [PromptPlayAgain])"
      using f p' r sd by (simp add: sessionBody_def)
    have "session wordList rnd k inp1 out1 = Some ([], out' @ [PromptPlayAgain])"
      by (subst session.simps) (simp add: b)
    with w0 la
    show "playerWon s' = 0 \<and> last out' = SorryOutOfGuesses ?w \<and>
          session wordList rnd k inp1 out1 = Some ([], out' @ [PromptPlayAgain])"
      by simp
  qed
  have C: "sessionBody wordList (rnd k) inp1 out1 = Some (playAgain, inp2, out2) \<longrightarrow>
      session wordList rnd k inp1 out1 =
        (if playAgain = CHR ''y'' then session wordList rnd (Suc k) inp2 out2
         else Some (inp2, out2))"
  proof
    assume "sessionBody wordList (rnd k) inp1 out1 = Some (playAgain, inp2, out2)"
    then show "session wordList rnd k inp1 out1 =
          (if playAgain = CHR ''y'' then session wordList rnd (Suc k) inp2 out2
           else Some (inp2, out2))"
      by (subst session.simps) simp
  qed
  have D: "(fst (readPlayAgain inp3) = CHR ''y'') =
      (\<exists>resp rest. fgets INPUT_BUFFER_SIZE inp3 = Some (resp, rest) \<and>
         (hd resp = CHR ''y'' \<or> hd resp = CHR ''Y''))"
    by (rule readPlayAgain_y)
  show ?thesis by (rule conjI [OF A conjI [OF B conjI [OF C D]]])
qed

text \<open>
  A round that meets the end of the input at its first prompt ends with the loss message.
\<close>

theorem eof_round_prints_loss:
  "playRound ''cat'' 8 [] [] =
     Some ([], (initRound ''cat'')\<lparr> gameOver := 1 \<rparr>,
           [PromptGuess, EofDetected, SorryOutOfGuesses ''cat''])"
  by (simp add: playRound_def gameLoop.simps gameTurn_def fgets_def initRound_def)

theorem end_of_input_ends_session_witness:
  "gameOver (initRound ''cat'') = 0 \<and>
   gameLoop ''cat'' 8 ([], initRound ''cat'', []) =
     Some ([], (initRound ''cat'')\<lparr> gameOver := 1 \<rparr>, [PromptGuess, EofDetected]) \<and>
   fgets INPUT_BUFFER_SIZE ''1\<newline>\<newline>'' = Some (''1\<newline>'', ''\<newline>'') \<and>
   session [''cat''] (\<lambda>k. 0) 0 ''1\<newline>\<newline>'' [] =
     Some ([], [PromptDifficulty, DifficultySelected 8, PromptGuess, EofDetected,
                SorryOutOfGuesses ''cat'', PromptPlayAgain]) \<and>
   sessionBody [''a''] 0 ''1\<newline>\<newline>a\<newline>y\<newline>'' [] =
     Some (CHR ''y'', [], [PromptDifficulty, DifficultySelected 8, PromptGuess,
                          GuessCorrect (CHR ''a''), Congratulations ''a'', PromptPlayAgain]) \<and>
   session [''a''] (\<lambda>k. 0) 0 ''1\<newline>\<newline>a\<newline>y\<newline>'' [] =
     Some ([], [PromptDifficulty, DifficultySelected 8, PromptGuess,
                GuessCorrect (CHR ''a''), Congratulations ''a'', PromptPlayAgain,
                PromptDifficulty, EofDetected]) \<and>
   fgets INPUT_BUFFER_SIZE ''Yes\<newline>'' = Some (''Yes\<newline>'', []) \<and>
   fst (readPlayAgain ''Yes\<newline>'') = CHR ''y''"
proof -
  let ?S = "(initRound ''cat'')\<lparr> gameOver := 1 \<rparr>"
  let ?o = "[PromptDifficulty, DifficultySelected 8, PromptGuess, EofDetected,
             SorryOutOfGuesses ''cat'']"
  let ?o2 = "[PromptDifficulty, DifficultySelected 8, PromptGuess,
              GuessCorrect (CHR ''a''), Congratulations ''a'', PromptPlayAgain]"
  have w1: "gameOver (initRound ''cat'') = 0" by (simp add: initRound_def)
  have w3: "fgets INPUT_BUFFER_SIZE ''1\<newline>\<newline>'' = Some (''1\<newline>'', ''\<newline>'')"
    by (simp add: fgets_def INPUT_BUFFER_SIZE_def newline_def eval_nat_numeral)
  have sel: "selectDifficulty ''1\<newline>'' = (8, DifficultySelected 8)"
    by (simp add: selectDifficulty_def sscanf_d_def c_str_def NUL_def isspace_c_def
        isdigit_c_def digits_value_def EASY_GUESSES_def Let_def)
  have pz: "pauseForUser ''\<newline>'' = []"
    by (simp add: pauseForUser_def consumeRemainingInput_def newline_def)
  have pr: "playRound ''cat'' 8 [] [PromptDifficulty, DifficultySelected 8] = Some ([], ?S, ?o)"
    by (simp add: playRound_def gameLoop.simps gameTurn_def fgets_def initRound_def)
  have w7: "fgets INPUT_BUFFER_SIZE ''Yes\<newline>'' = Some (''Yes\<newline>'', [])"
    by (simp add: fgets_def INPUT_BUFFER_SIZE_def newline_def eval_nat_numeral)
  have w5: "sessionBody [''a''] 0 ''1\<newline>\<newline>a\<newline>y\<newline>'' [] = Some (CHR ''y'', [], ?o2)"
    by (simp add: sessionBody_def sel pauseForUser_def consumeRemainingInput_def
        playRound_def gameLoop.simps gameTurn_def readPlayAgain_def
        fgets_def INPUT_BUFFER_SIZE_def newline_def eval_nat_numeral
        normalizeGuess_def strlen_def c_str_def NUL_def tolower_c_def isupper_c_def
        isalpha_c_def islower_c_def strchr_c_def initRound_def ALPHABET_SIZE_def
        applyGuess_def store_def reveal_def checkGameOver_def
        selectDifficulty_def sscanf_d_def isspace_c_def
        isdigit_c_def digits_value_def EASY_GUESSES_def Let_def)
  have w6': "session [''a''] (\<lambda>k. 0) (Suc 0) [] ?o2 = Some ([], ?o2 @ [PromptDifficulty, EofDetected])"
    by (subst session.simps) (simp add: sessionBody_def fgets_def)
  note T = end_of_input_ends_session [where s = "initRound ''cat''" and w = "''cat''" and m = 8
      and out = "[]" and wordList = "[''cat'']" and rnd = "\<lambda>k. 0" and k = 0
      and ?inp1.0 = "''1\<newline>\<newline>''" and dbuf = "''1\<newline>''" and ?rest1.0 = "''\<newline>''"
      and ?out1.0 = "[]" and inp' = "[]" and s' = ?S and out' = ?o
      and ?inp3.0 = "''Yes\<newline>''"]
  from T [THEN conjunct1] w1
  have w2: "gameLoop ''cat'' 8 ([], initRound ''cat'', []) =
     Some ([], ?S, [PromptGuess, EofDetected])"
    by simp
  from T [THEN conjunct2, THEN conjunct1] w3 sel pz pr
  have w4: "session [''cat''] (\<lambda>k. 0) 0 ''1\<newline>\<newline>'' [] = Some ([], ?o @ [PromptPlayAgain])"
    by simp
  from T [THEN conjunct2, THEN conjunct2, THEN conjunct2] w7
  have w8: "fst (readPlayAgain ''Yes\<newline>'') = CHR ''y''" by simp
  from end_of_input_ends_session [where wordList = "[''a'']" and rnd = "\<lambda>k. 0" and k = 0
      and ?inp1.0 = "''1\<newline>\<newline>a\<newline>y\<newline>''" and ?out1.0 = "[]"
      and playAgain = "CHR ''y''" and ?inp2.0 = "[]" and ?out2.0 = ?o2,
      THEN conjunct2, THEN conjunct2, THEN conjunct1] w5 w6'
  have w6: "session [''a''] (\<lambda>k. 0) 0 ''1\<newline>\<newline>a\<newline>y\<newline>'' [] =
              Some ([], ?o2 @ [PromptDifficulty, EofDetected])"
    by simp
  from w1 w2 w3 w4 w5 w6 w7 w8 show ?thesis by simp
qed

end
